theory Spec2Isabelle
  imports Complex_Main "HOL-Library.Word" "HOL-Library.List_Lexorder" "HOL-Library.Sublist"
begin

section \<open>JavaScript values\<close>

text \<open>
  A JavaScript string is a sequence of UTF-16 code units. \<open>lit\<close> writes an ASCII literal
  as such a sequence. Strings are compared code unit by code unit (a proper prefix is
  smaller), which is the lexicographic order of lists.
\<close>

type_synonym jschar = "16 word"
type_synonym jsstring = "jschar list"

definition lit :: "string \<Rightarrow> jsstring" where
  "lit s = map of_char s"

text \<open>
  A JavaScript number is \<open>NaN\<close>, an infinity or a finite value. Finite values are exact
  rationals here: the rounding of binary floating point and the sign of zero are not
  modelled.
\<close>

datatype number = NaN | PosInf | NegInf | Fin rat

fun isNaN :: "number \<Rightarrow> bool" where
  "isNaN NaN = True"
| "isNaN _ = False"

fun num_neg :: "number \<Rightarrow> number" where
  "num_neg NaN = NaN"
| "num_neg PosInf = NegInf"
| "num_neg NegInf = PosInf"
| "num_neg (Fin a) = Fin (- a)"

fun num_add :: "number \<Rightarrow> number \<Rightarrow> number" where
  "num_add (Fin a) (Fin b) = Fin (a + b)"
| "num_add NaN y = NaN"
| "num_add x NaN = NaN"
| "num_add PosInf NegInf = NaN"
| "num_add NegInf PosInf = NaN"
| "num_add (Fin a) y = y"
| "num_add x y = x"

definition num_sub :: "number \<Rightarrow> number \<Rightarrow> number" where
  "num_sub x y = num_add x (num_neg y)"

fun num_mul :: "number \<Rightarrow> number \<Rightarrow> number" where
  "num_mul (Fin a) (Fin b) = Fin (a * b)"
| "num_mul NaN y = NaN"
| "num_mul x NaN = NaN"
| "num_mul (Fin a) y = (if a = 0 then NaN else if 0 < a then y else num_neg y)"
| "num_mul x (Fin b) = (if b = 0 then NaN else if 0 < b then x else num_neg x)"
| "num_mul x y = (if x = y then PosInf else NegInf)"

text \<open>Division; a zero divisor is taken as \<open>+0\<close>.\<close>

fun num_div :: "number \<Rightarrow> number \<Rightarrow> number" where
  "num_div (Fin a) (Fin b) =
     (if b = 0 then (if a = 0 then NaN else if 0 < a then PosInf else NegInf)
      else Fin (a / b))"
| "num_div NaN y = NaN"
| "num_div x NaN = NaN"
| "num_div (Fin a) y = Fin 0"
| "num_div x (Fin b) = (if 0 \<le> b then x else num_neg x)"
| "num_div x y = NaN"

text \<open>\<open>x <= y\<close> and \<open>x < y\<close>: false as soon as one side is \<open>NaN\<close>.\<close>

fun num_le :: "number \<Rightarrow> number \<Rightarrow> bool" where
  "num_le NaN y = False"
| "num_le x NaN = False"
| "num_le (Fin a) (Fin b) = (a \<le> b)"
| "num_le NegInf y = True"
| "num_le x PosInf = True"
| "num_le x y = False"

fun num_less :: "number \<Rightarrow> number \<Rightarrow> bool" where
  "num_less NaN y = False"
| "num_less x NaN = False"
| "num_less (Fin a) (Fin b) = (a < b)"
| "num_less PosInf y = False"
| "num_less x NegInf = False"
| "num_less x y = True"

text \<open>\<open>Math.round\<close>: the nearest integer, a tie going towards \<open>+\<infinity>\<close>.\<close>

fun Math_round :: "number \<Rightarrow> number" where
  "Math_round (Fin a) = Fin (of_int \<lfloor>a + 1 / 2\<rfloor>)"
| "Math_round x = x"

subsection \<open>Numbers and strings\<close>

definition digit_char :: "nat \<Rightarrow> jschar" where
  "digit_char d = of_nat (48 + d)"

fun dec_digits :: "nat \<Rightarrow> jsstring" where
  "dec_digits n = (if n < 10 then [digit_char n] else dec_digits (n div 10) @ [digit_char (n mod 10)])"

declare dec_digits.simps [simp del]

text \<open>\<open>String(n)\<close> for an integral number.\<close>

definition int_to_string :: "int \<Rightarrow> jsstring" where
  "int_to_string i = (if i < 0 then lit ''-'' @ dec_digits (nat (- i)) else dec_digits (nat i))"

definition padStart :: "nat \<Rightarrow> jschar \<Rightarrow> jsstring \<Rightarrow> jsstring" where
  "padStart n c s = replicate (n - length s) c @ s"

definition is_digit :: "jschar \<Rightarrow> bool" where
  "is_digit c = (0x30 \<le> c \<and> c \<le> 0x39)"

definition digit_val :: "jschar \<Rightarrow> nat" where
  "digit_val c = unat c - 48"

definition digits_val :: "jsstring \<Rightarrow> nat" where
  "digits_val ds = foldl (\<lambda>n c. 10 * n + digit_val c) 0 ds"

section \<open>The data model\<close>

text \<open>The \<open>Expense\<close> type of \<open>page.tsx\<close>; its fields \<open>id\<close> and \<open>note\<close> are \<open>id'\<close> and \<open>note'\<close> here.\<close>

record Expense =
  id' :: jsstring
  date :: jsstring
  amount :: number
  category :: jsstring
  note' :: jsstring

definition CATEGORIES :: "jsstring list" where
  "CATEGORIES = map lit [''Groceries'', ''Dining'', ''Transport'', ''Housing'', ''Health'',
     ''Entertainment'', ''Utilities'', ''Travel'', ''Other'']"

text \<open>
  The state of the \<open>Page\<close> component: the collection and the form fields (the
  \<open>useState\<close> variables \<open>date\<close>, \<open>amount\<close>, \<open>category\<close>, \<open>note\<close>, suffixed here).
\<close>

record page =
  expenses :: "Expense list"
  date_st :: jsstring
  amount_st :: jsstring
  category_st :: jsstring
  note_st :: jsstring
  filterMonth :: jsstring

section \<open>Formatting helpers\<close>

text \<open>
  \<open>new Date(s)\<close> on a date-time string without offset is local time, and
  \<open>getFullYear\<close> and \<open>getMonth\<close> read it back in local time: the model keeps the year
  and the month of the string. It accepts the date-time string format of ECMAScript
  with a four-digit year (\<open>YYYY\<close>, \<open>YYYY-MM\<close> or \<open>YYYY-MM-DD\<close>, then \<open>T00:00:00\<close>),
  the day being one of the month. A year of six digits with a sign, and every string
  outside the format (of which an engine makes what it chooses), is an invalid date
  here. No property below depends on which strings are dates.
\<close>

definition days_in_month :: "nat \<Rightarrow> nat \<Rightarrow> nat" where
  "days_in_month y m =
     (if m = 2 then (if y mod 4 = 0 \<and> (y mod 100 \<noteq> 0 \<or> y mod 400 = 0) then 29 else 28)
      else if m \<in> {4, 6, 9, 11} then 30 else 31)"

definition parse_date_only :: "jsstring \<Rightarrow> (nat \<times> nat) option" where
  "parse_date_only s =
     (let y = take 4 s; r = drop 4 s in
      if length y = 4 \<and> list_all is_digit y then
        (if r = [] then Some (digits_val y, 1)
         else if length r \<in> {3, 6} \<and> r ! 0 = 0x2D \<and> list_all is_digit (take 2 (drop 1 r)) then
           (let m = digits_val (take 2 (drop 1 r)); r' = drop 3 r in
            if m < 1 \<or> 12 < m then None
            else if r' = [] then Some (digits_val y, m)
            else if r' ! 0 = 0x2D \<and> list_all is_digit (drop 1 r') then
              (let d = digits_val (drop 1 r') in
               if 1 \<le> d \<and> d \<le> days_in_month (digits_val y) m then Some (digits_val y, m)
               else None)
            else None)
         else None)
      else None)"

text \<open>The year and the month (1 to 12) of \<open>new Date(s)\<close>, \<open>None\<close> for an invalid date.\<close>

definition new_Date :: "jsstring \<Rightarrow> (nat \<times> nat) option" where
  "new_Date s =
     (let n = length s in
      if 9 \<le> n \<and> drop (n - 9) s = lit ''T00:00:00'' then parse_date_only (take (n - 9) s)
      else None)"

definition monthKey :: "jsstring \<Rightarrow> jsstring" where
  "monthKey dateStr =
     (case new_Date (dateStr @ lit ''T00:00:00'') of
        None \<Rightarrow> lit ''NaN-NaN''
      | Some (y, m) \<Rightarrow> int_to_string (int y) @ lit ''-'' @ padStart 2 0x30 (int_to_string (int m)))"

section \<open>The expense store and its derivations\<close>

definition filtered :: "Expense list \<Rightarrow> jsstring \<Rightarrow> Expense list" where
  "filtered es fm = filter (\<lambda>e. monthKey (date e) = fm) es"

text \<open>
  A JavaScript \<open>Map\<close> keeps its keys in insertion order; \<open>set\<close> on a key that is
  present replaces the value in place.
\<close>

type_synonym ('k, 'v) jsmap = "('k \<times> 'v) list"

fun map_get :: "('k, 'v) jsmap \<Rightarrow> 'k \<Rightarrow> 'v option" where
  "map_get [] k = None"
| "map_get ((k', v) # m) k = (if k' = k then Some v else map_get m k)"

fun map_set :: "'k \<Rightarrow> 'v \<Rightarrow> ('k, 'v) jsmap \<Rightarrow> ('k, 'v) jsmap" where
  "map_set k v [] = [(k, v)]"
| "map_set k v ((k', v') # m) = (if k' = k then (k, v) # m else (k', v') # map_set k v m)"

record totals =
  total :: number
  byCategory :: "(jsstring, number) jsmap"

definition totals_of :: "Expense list \<Rightarrow> totals" where
  "totals_of fs =
     \<lparr> total = foldl (\<lambda>s e. num_add s (amount e)) (Fin 0) fs,
       byCategory = foldl (\<lambda>m e. map_set (category e)
          (num_add (case map_get m (category e) of None \<Rightarrow> Fin 0 | Some v \<Rightarrow> v) (amount e)) m) [] fs \<rparr>"

text \<open>The sum of the values of a mapping, in its iteration order.\<close>

definition sum_values :: "(jsstring, number) jsmap \<Rightarrow> number" where
  "sum_values m = foldl num_add (Fin 0) (map snd m)"

definition removeExpense :: "jsstring \<Rightarrow> page \<Rightarrow> page" where
  "removeExpense i s = s\<lparr>expenses := filter (\<lambda>e. id' e \<noteq> i) (expenses s)\<rparr>"

text \<open>\<open>new Set(xs)\<close>, read back with \<open>Array.from\<close>: the first occurrence of each element, in order.\<close>

definition Set_from :: "'a list \<Rightarrow> 'a list" where
  "Set_from xs = foldl (\<lambda>s x. if x \<in> set s then s else s @ [x]) [] xs"

text \<open>
  \<open>today\<close> stands for \<open>new Date().toISOString().slice(0,10)\<close>, read from the clock.
\<close>

definition monthsAvailable :: "jsstring \<Rightarrow> Expense list \<Rightarrow> jsstring list" where
  "monthsAvailable today es =
     (let keys = rev (sort (Set_from (map (\<lambda>e. monthKey (date e)) es)))
      in if length keys = 0 then keys @ [monthKey today] else keys)"

text \<open>
  White space and line terminators, the code units that \<open>String.prototype.trim\<close> and
  \<open>parseFloat\<close> strip.
\<close>

definition is_ws :: "jschar \<Rightarrow> bool" where
  "is_ws c = (c \<in> {0x9, 0xA, 0xB, 0xC, 0xD, 0x20, 0xA0, 0x1680, 0x2028, 0x2029, 0x202F,
      0x205F, 0x3000, 0xFEFF} \<or> (0x2000 \<le> c \<and> c \<le> 0x200A))"

definition trim :: "jsstring \<Rightarrow> jsstring" where
  "trim s = rev (dropWhile is_ws (rev (dropWhile is_ws s)))"

text \<open>
  \<open>parseFloat\<close>: leading white space is skipped, then the longest prefix that is a
  decimal literal is read: a sign, then \<open>Infinity\<close> or digits with an optional fraction
  and an optional exponent (an exponent without digits is not part of the literal).
  No such prefix gives \<open>NaN\<close>. The value is exact.
\<close>

definition pow10 :: "int \<Rightarrow> rat" where
  "pow10 e = (if 0 \<le> e then 10 ^ nat e else 1 / 10 ^ nat (- e))"

definition exponent_part :: "jsstring \<Rightarrow> int" where
  "exponent_part r =
     (case r of
        [] \<Rightarrow> 0
      | c # r1 \<Rightarrow>
          if c = 0x65 \<or> c = 0x45 then
            (case r1 of
               [] \<Rightarrow> 0
             | d # r2 \<Rightarrow>
                 if d = 0x2D then
                   (if takeWhile is_digit r2 = [] then 0 else - int (digits_val (takeWhile is_digit r2)))
                 else if d = 0x2B then int (digits_val (takeWhile is_digit r2))
                 else int (digits_val (takeWhile is_digit r1)))
          else 0)"

definition unsigned_literal :: "jsstring \<Rightarrow> number option" where
  "unsigned_literal u =
     (if take 8 u = lit ''Infinity'' then Some PosInf
      else
        (let ip = takeWhile is_digit u; r1 = dropWhile is_digit u;
             dot = (r1 \<noteq> [] \<and> hd r1 = 0x2E);
             fp = (if dot then takeWhile is_digit (tl r1) else []);
             r2 = (if dot then dropWhile is_digit (tl r1) else r1)
         in if ip = [] \<and> fp = [] then None
            else Some (Fin (of_nat (digits_val (ip @ fp)) * pow10 (exponent_part r2 - int (length fp))))))"

definition skip_sign :: "jsstring \<Rightarrow> jsstring" where
  "skip_sign t = (case t of [] \<Rightarrow> [] | c # r \<Rightarrow> if c = 0x2D \<or> c = 0x2B then r else t)"

definition parseFloat :: "jsstring \<Rightarrow> number" where
  "parseFloat s =
     (let t = dropWhile is_ws s;
          neg = (case t of [] \<Rightarrow> False | c # _ \<Rightarrow> c = 0x2D)
      in case unsigned_literal (skip_sign t) of
           None \<Rightarrow> NaN
         | Some v \<Rightarrow> if neg then num_neg v else v)"

text \<open>
  Whether a string starts (after white space and a sign) like a number: with a digit,
  with a dot before a digit, or with \<open>Infinity\<close>.
\<close>

definition starts_numeric :: "jsstring \<Rightarrow> bool" where
  "starts_numeric s =
     (let u = skip_sign (dropWhile is_ws s)
      in take 8 u = lit ''Infinity'' \<or>
         (case u of
            [] \<Rightarrow> False
          | c # r \<Rightarrow> is_digit c \<or> (c = 0x2E \<and> (case r of [] \<Rightarrow> False | d # _ \<Rightarrow> is_digit d))))"

text \<open>
  \<open>addExpense\<close>; \<open>uuid\<close> stands for the string \<open>crypto.randomUUID()\<close> returns.
\<close>

definition addExpense :: "jsstring \<Rightarrow> page \<Rightarrow> page" where
  "addExpense uuid s =
     (let v = parseFloat (amount_st s) in
      if date_st s = [] \<or> isNaN v \<or> num_le v (Fin 0) then s
      else
        (let item = \<lparr> id' = uuid, date = date_st s,
               amount = num_div (Math_round (num_mul v (Fin 100))) (Fin 100),
               category = category_st s, note' = trim (note_st s) \<rparr>
         in s\<lparr>expenses := item # expenses s, amount_st := [], note_st := []\<rparr>))"

text \<open>
  \<open>Array.prototype.sort\<close> with a comparator is stable: \<open>b\<close> goes before \<open>a\<close> only
  when \<open>cmp a b\<close> is positive (\<open>NaN\<close> counts as zero).
\<close>

fun insert_by :: "('a \<Rightarrow> 'a \<Rightarrow> number) \<Rightarrow> 'a \<Rightarrow> 'a list \<Rightarrow> 'a list" where
  "insert_by cmp x [] = [x]"
| "insert_by cmp x (y # ys) =
     (if num_less (Fin 0) (cmp x y) then y # insert_by cmp x ys else x # y # ys)"

definition sort_by :: "('a \<Rightarrow> 'a \<Rightarrow> number) \<Rightarrow> 'a list \<Rightarrow> 'a list" where
  "sort_by cmp xs = foldr (insert_by cmp) xs []"

text \<open>
  The top category card: \<open>None\<close> is the placeholder shown for an empty mapping,
  otherwise the first entry after sorting by descending amount.
\<close>

definition topCategory :: "(jsstring, number) jsmap \<Rightarrow> (jsstring \<times> number) option" where
  "topCategory m =
     (if length m = 0 then None
      else (case sort_by (\<lambda>a b. num_sub (snd b) (snd a)) m of
              [] \<Rightarrow> None
            | best # _ \<Rightarrow> Some best))"

section \<open>The component as a transition system\<close>

text \<open>
  The state on mount, and the events of the page: the \<open>onChange\<close> handlers store the
  value of their input, the buttons call \<open>addExpense\<close> and \<open>removeExpense\<close>.
\<close>

definition initial :: "jsstring \<Rightarrow> page" where
  "initial today =
     \<lparr> expenses = [], date_st = today, amount_st = [], category_st = CATEGORIES ! 0,
       note_st = [], filterMonth = monthKey today \<rparr>"

datatype event =
    SetDate jsstring
  | SetAmount jsstring
  | SetCategory jsstring
  | SetNote jsstring
  | SetFilterMonth jsstring
  | Add jsstring
  | Delete jsstring

fun handle :: "page \<Rightarrow> event \<Rightarrow> page" where
  "handle s (SetDate v) = s\<lparr>date_st := v\<rparr>"
| "handle s (SetAmount v) = s\<lparr>amount_st := v\<rparr>"
| "handle s (SetCategory v) = s\<lparr>category_st := v\<rparr>"
| "handle s (SetNote v) = s\<lparr>note_st := v\<rparr>"
| "handle s (SetFilterMonth v) = s\<lparr>filterMonth := v\<rparr>"
| "handle s (Add uuid) = addExpense uuid s"
| "handle s (Delete i) = removeExpense i s"

definition run :: "page \<Rightarrow> event list \<Rightarrow> page" where
  "run s evs = foldl handle s evs"

section \<open>JSON\<close>

text \<open>
  The values \<open>JSON.parse\<close> builds. A number is finite; an object is the list of its
  members in the order of the text.
\<close>

datatype json =
    JNull
  | JBool bool
  | JNum rat
  | JStr jsstring
  | JArr "json list"
  | JObj "(jsstring \<times> json) list"

subsection \<open>\<open>JSON.stringify\<close>\<close>

definition hex_digit :: "nat \<Rightarrow> jschar" where
  "hex_digit d = (if d < 10 then of_nat (48 + d) else of_nat (87 + d))"

definition hex4 :: "jschar \<Rightarrow> jsstring" where
  "hex4 c =
     (let n = unat c
      in [hex_digit (n div 4096), hex_digit (n div 256 mod 16), hex_digit (n div 16 mod 16),
          hex_digit (n mod 16)])"

definition is_lead :: "jschar \<Rightarrow> bool" where
  "is_lead c = (0xD800 \<le> c \<and> c \<le> 0xDBFF)"

definition is_trail :: "jschar \<Rightarrow> bool" where
  "is_trail c = (0xDC00 \<le> c \<and> c \<le> 0xDFFF)"

text \<open>
  \<open>QuoteJSONString\<close>: the short escapes, \<open>\uXXXX\<close> for the other control characters
  and for a surrogate that is not part of a pair, every other code unit as it is.
\<close>

definition quote_unit :: "jschar \<Rightarrow> jsstring" where
  "quote_unit c =
     (if c = 0x08 then [0x5C, 0x62]
      else if c = 0x09 then [0x5C, 0x74]
      else if c = 0x0A then [0x5C, 0x6E]
      else if c = 0x0C then [0x5C, 0x66]
      else if c = 0x0D then [0x5C, 0x72]
      else if c = 0x22 then [0x5C, 0x22]
      else if c = 0x5C then [0x5C, 0x5C]
      else if c < 0x20 \<or> is_lead c \<or> is_trail c then [0x5C, 0x75] @ hex4 c
      else [c])"

fun quote_units :: "jsstring \<Rightarrow> jsstring" where
  "quote_units (c # d # ds) =
     (if is_lead c \<and> is_trail d then c # d # quote_units ds
      else quote_unit c @ quote_units (d # ds))"
| "quote_units [c] = quote_unit c"
| "quote_units [] = []"

definition QuoteJSONString :: "jsstring \<Rightarrow> jsstring" where
  "QuoteJSONString s = 0x22 # quote_units s @ [0x22]"

text \<open>
  \<open>Number::toString\<close> of a positive number that is \<open>s \<times> 10\<^sup>n\<^sup>-\<^sup>k\<close>, \<open>ds\<close> being the \<open>k\<close>
  digits of \<open>s\<close>.
\<close>

definition format_digits :: "jsstring \<Rightarrow> int \<Rightarrow> jsstring" where
  "format_digits ds n =
     (let k = int (length ds) in
      if k \<le> n \<and> n \<le> 21 then ds @ replicate (nat (n - k)) 0x30
      else if 0 < n \<and> n \<le> 21 then take (nat n) ds @ [0x2E] @ drop (nat n) ds
      else if - 6 < n \<and> n \<le> 0 then [0x30, 0x2E] @ replicate (nat (- n)) 0x30 @ ds
      else
        (let e = n - 1;
             ex = [0x65, if 0 \<le> e then 0x2B else 0x2D] @ dec_digits (nat \<bar>e\<bar>)
         in if k = 1 then ds @ ex else take 1 ds @ [0x2E] @ drop 1 ds @ ex))"

definition is_int :: "rat \<Rightarrow> bool" where
  "is_int q = (of_int \<lfloor>q\<rfloor> = q)"

text \<open>The least \<open>e\<close>, up to the bound given, for which \<open>q \<times> 10\<^sup>e\<close> is an integer.\<close>

function decimal_places :: "nat \<Rightarrow> rat \<Rightarrow> nat option" where
  "decimal_places f q =
     (if is_int q then Some 0
      else if f = 0 then None
      else map_option Suc (decimal_places (f - 1) (q * 10)))"
  by pat_completeness auto
termination
  by (relation "measure fst") auto

declare decimal_places.simps [simp del]

text \<open>A positive integer without its trailing zeros, and how many they were.\<close>

fun strip_zeros :: "nat \<Rightarrow> nat \<times> nat" where
  "strip_zeros n =
     (if n = 0 \<or> n mod 10 \<noteq> 0 then (n, 0)
      else (let (s, z) = strip_zeros (n div 10) in (s, Suc z)))"

declare strip_zeros.simps [simp del]

text \<open>
  Every double has a finite decimal expansion, of at most 1074 places (the least
  positive double is \<open>2\<^sup>-\<^sup>1\<^sup>0\<^sup>7\<^sup>4\<close>), which is what \<open>is_decimal\<close> asks of a rational. The
  digits printed are those of the exact value.
\<close>

definition is_decimal :: "rat \<Rightarrow> bool" where
  "is_decimal q = (decimal_places 1074 \<bar>q\<bar> \<noteq> None)"

definition positive_toString :: "rat \<Rightarrow> jsstring" where
  "positive_toString q =
     (case decimal_places 1074 q of
        None \<Rightarrow> []
      | Some e \<Rightarrow>
          (let (s, z) = strip_zeros (nat \<lfloor>q * 10 ^ e\<rfloor>); ds = dec_digits s
           in format_digits ds (int (length ds) + int z - int e)))"

definition Number_toString :: "rat \<Rightarrow> jsstring" where
  "Number_toString q =
     (if q = 0 then [0x30]
      else if q < 0 then 0x2D # positive_toString (- q)
      else positive_toString q)"

fun join_commas :: "jsstring list \<Rightarrow> jsstring" where
  "join_commas [] = []"
| "join_commas [x] = x"
| "join_commas (x # y # xs) = x @ [0x2C] @ join_commas (y # xs)"

fun stringify :: "json \<Rightarrow> jsstring" where
  "stringify JNull = lit ''null''"
| "stringify (JBool b) = (if b then lit ''true'' else lit ''false'')"
| "stringify (JNum q) = Number_toString q"
| "stringify (JStr s) = QuoteJSONString s"
| "stringify (JArr vs) = [0x5B] @ join_commas (map stringify vs) @ [0x5D]"
| "stringify (JObj kvs) =
     [0x7B] @ join_commas (map (\<lambda>kv. QuoteJSONString (fst kv) @ [0x3A] @ stringify (snd kv)) kvs) @ [0x7D]"

text \<open>The values all of whose numbers are decimal, so that every number has its digits.\<close>

fun printable :: "json \<Rightarrow> bool" where
  "printable (JNum q) = is_decimal q"
| "printable (JArr vs) = list_all printable vs"
| "printable (JObj kvs) = list_all (\<lambda>kv. printable (snd kv)) kvs"
| "printable j = True"

definition finite_decimal :: "number \<Rightarrow> bool" where
  "finite_decimal x = (case x of Fin q \<Rightarrow> is_decimal q | _ \<Rightarrow> False)"

text \<open>
  An \<open>Expense\<close> object as \<open>JSON.stringify\<close> sees it: its properties in the order of
  their creation, a number that is not finite serialised as \<open>null\<close>.
\<close>

definition number_json :: "number \<Rightarrow> json" where
  "number_json x = (case x of Fin q \<Rightarrow> JNum q | _ \<Rightarrow> JNull)"

definition expense_json :: "Expense \<Rightarrow> json" where
  "expense_json e =
     JObj [(lit ''id'', JStr (id' e)), (lit ''date'', JStr (date e)),
           (lit ''amount'', number_json (amount e)), (lit ''category'', JStr (category e)),
           (lit ''note'', JStr (note' e))]"

definition JSON_stringify :: "Expense list \<Rightarrow> jsstring" where
  "JSON_stringify es = stringify (JArr (map expense_json es))"

text \<open>How a serialised value starts.\<close>

definition value_start :: "jschar \<Rightarrow> bool" where
  "value_start c = (c = 0x6E \<or> c = 0x74 \<or> c = 0x66 \<or> c = 0x22 \<or> c = 0x5B \<or> c = 0x7B \<or> c = 0x2D \<or> is_digit c)"

text \<open>A member of an object, serialised.\<close>

definition member_text :: "jsstring \<times> json \<Rightarrow> jsstring" where
  "member_text kv = QuoteJSONString (fst kv) @ [0x3A] @ stringify (snd kv)"

subsection \<open>\<open>JSON.parse\<close>\<close>

definition is_json_ws :: "jschar \<Rightarrow> bool" where
  "is_json_ws c = (c = 0x20 \<or> c = 0x09 \<or> c = 0x0A \<or> c = 0x0D)"

definition skip_ws :: "jsstring \<Rightarrow> jsstring" where
  "skip_ws s = dropWhile is_json_ws s"

definition hex_val :: "jschar \<Rightarrow> nat option" where
  "hex_val c =
     (if 0x30 \<le> c \<and> c \<le> 0x39 then Some (unat c - 48)
      else if 0x61 \<le> c \<and> c \<le> 0x66 then Some (unat c - 87)
      else if 0x41 \<le> c \<and> c \<le> 0x46 then Some (unat c - 55)
      else None)"

definition hex4_val :: "jsstring \<Rightarrow> jschar option" where
  "hex4_val hs =
     (case map hex_val hs of
        [Some a, Some b, Some c, Some d] \<Rightarrow> Some (of_nat (a * 4096 + b * 256 + c * 16 + d))
      | _ \<Rightarrow> None)"

definition unescape :: "jschar \<Rightarrow> jschar option" where
  "unescape e =
     (if e = 0x22 \<or> e = 0x5C \<or> e = 0x2F then Some e
      else if e = 0x62 then Some 0x08
      else if e = 0x66 then Some 0x0C
      else if e = 0x6E then Some 0x0A
      else if e = 0x72 then Some 0x0D
      else if e = 0x74 then Some 0x09
      else None)"

text \<open>The characters of a string after its opening quote, and what follows the closing one.\<close>

function parse_chars :: "jsstring \<Rightarrow> (jsstring \<times> jsstring) option" where
  "parse_chars [] = None"
| "parse_chars (c # cs) =
     (if c = 0x22 then Some ([], cs)
      else if c = 0x5C then
        (case cs of
           [] \<Rightarrow> None
         | e # r \<Rightarrow>
             if e = 0x75 then
               (case hex4_val (take 4 r) of
                  None \<Rightarrow> None
                | Some u \<Rightarrow> map_option (apfst ((#) u)) (parse_chars (drop 4 r)))
             else
               (case unescape e of
                  None \<Rightarrow> None
                | Some u \<Rightarrow> map_option (apfst ((#) u)) (parse_chars r)))
      else if c < 0x20 then None
      else map_option (apfst ((#) c)) (parse_chars cs))"
  by pat_completeness auto
termination
  by (relation "measure length") auto

text \<open>
  A number: an optional minus sign, the integer part (a single \<open>0\<close>, or digits that do
  not start with one), an optional fraction and an optional exponent, each with at
  least one digit. The value is exact.
\<close>

definition int_part :: "jsstring \<Rightarrow> jsstring" where
  "int_part u = (if u \<noteq> [] \<and> hd u = 0x30 then [0x30] else takeWhile is_digit u)"

definition frac_part :: "jsstring \<Rightarrow> (jsstring \<times> jsstring) option" where
  "frac_part r =
     (case r of
        [] \<Rightarrow> Some ([], [])
      | c # t \<Rightarrow>
          if c = 0x2E then
            (if takeWhile is_digit t = [] then None
             else Some (takeWhile is_digit t, dropWhile is_digit t))
          else Some ([], r))"

definition exp_part :: "jsstring \<Rightarrow> (int \<times> jsstring) option" where
  "exp_part r =
     (case r of
        [] \<Rightarrow> Some (0, [])
      | c # t \<Rightarrow>
          if c = 0x65 \<or> c = 0x45 then
            (let neg = (t \<noteq> [] \<and> hd t = 0x2D);
                 d = (if t \<noteq> [] \<and> (hd t = 0x2D \<or> hd t = 0x2B) then tl t else t);
                 ed = takeWhile is_digit d
             in if ed = [] then None
                else Some (if neg then - int (digits_val ed) else int (digits_val ed),
                           dropWhile is_digit d))
          else Some (0, r))"

definition parse_number :: "jsstring \<Rightarrow> (rat \<times> jsstring) option" where
  "parse_number s =
     (let neg = (s \<noteq> [] \<and> hd s = 0x2D);
          u = (if neg then tl s else s);
          ip = int_part u
      in if ip = [] then None
         else
           (case frac_part (drop (length ip) u) of
              None \<Rightarrow> None
            | Some (fp, r2) \<Rightarrow>
                (case exp_part r2 of
                   None \<Rightarrow> None
                 | Some (e, r5) \<Rightarrow>
                     Some ((if neg then - 1 else 1) * of_nat (digits_val (ip @ fp)) *
                             pow10 (e - int (length fp)),
                           r5))))"

text \<open>What may follow a number in a text: nothing that would continue it.\<close>

definition number_end :: "jsstring \<Rightarrow> bool" where
  "number_end r =
     (case r of [] \<Rightarrow> True | c # _ \<Rightarrow> \<not> is_digit c \<and> c \<noteq> 0x2E \<and> c \<noteq> 0x65 \<and> c \<noteq> 0x45)"

text \<open>
  The recursive descent over values, array elements and object members. Each nested
  call takes one unit of fuel; \<open>JSON_parse\<close> gives it the length of the text and one
  more.
\<close>

fun parse_value :: "nat \<Rightarrow> jsstring \<Rightarrow> (json \<times> jsstring) option"
  and parse_elements :: "nat \<Rightarrow> jsstring \<Rightarrow> (json list \<times> jsstring) option"
  and parse_members :: "nat \<Rightarrow> jsstring \<Rightarrow> ((jsstring \<times> json) list \<times> jsstring) option" where
  "parse_value 0 s = None"
| "parse_value (Suc n) s =
     (case skip_ws s of
        [] \<Rightarrow> None
      | c # r \<Rightarrow>
          if c = 0x7B then
            (case skip_ws r of
               [] \<Rightarrow> None
             | d # r' \<Rightarrow>
                 if d = 0x7D then Some (JObj [], r')
                 else map_option (apfst JObj) (parse_members n r))
          else if c = 0x5B then
            (case skip_ws r of
               [] \<Rightarrow> None
             | d # r' \<Rightarrow>
                 if d = 0x5D then Some (JArr [], r')
                 else map_option (apfst JArr) (parse_elements n r))
          else if c = 0x22 then map_option (apfst JStr) (parse_chars r)
          else if c = 0x2D \<or> is_digit c then map_option (apfst JNum) (parse_number (c # r))
          else if take 4 (c # r) = lit ''true'' then Some (JBool True, drop 4 (c # r))
          else if take 5 (c # r) = lit ''false'' then Some (JBool False, drop 5 (c # r))
          else if take 4 (c # r) = lit ''null'' then Some (JNull, drop 4 (c # r))
          else None)"
| "parse_elements 0 s = None"
| "parse_elements (Suc n) s =
     (case parse_value n s of
        None \<Rightarrow> None
      | Some (v, r) \<Rightarrow>
          (case skip_ws r of
             [] \<Rightarrow> None
           | c # r' \<Rightarrow>
               if c = 0x2C then map_option (apfst ((#) v)) (parse_elements n r')
               else if c = 0x5D then Some ([v], r')
               else None))"
| "parse_members 0 s = None"
| "parse_members (Suc n) s =
     (case skip_ws s of
        [] \<Rightarrow> None
      | q # r \<Rightarrow>
          if q \<noteq> 0x22 then None
          else
            (case parse_chars r of
               None \<Rightarrow> None
             | Some (k, r1) \<Rightarrow>
                 (case skip_ws r1 of
                    [] \<Rightarrow> None
                  | c # r2 \<Rightarrow>
                      if c \<noteq> 0x3A then None
                      else
                        (case parse_value n r2 of
                           None \<Rightarrow> None
                         | Some (v, r3) \<Rightarrow>
                             (case skip_ws r3 of
                                [] \<Rightarrow> None
                              | d # r4 \<Rightarrow>
                                  if d = 0x2C then map_option (apfst ((#) (k, v))) (parse_members n r4)
                                  else if d = 0x7D then Some ([(k, v)], r4)
                                  else None)))))"

datatype error = SyntaxError | SecurityError | QuotaExceededError

definition JSON_parse :: "jsstring \<Rightarrow> error + json" where
  "JSON_parse text =
     (case parse_value (Suc (length text)) text of
        None \<Rightarrow> Inl SyntaxError
      | Some (v, r) \<Rightarrow> if skip_ws r = [] then Inr v else Inl SyntaxError)"

text \<open>
  What the cast \<open>as Expense[]\<close> takes for granted: an array of objects with the five
  properties of an \<open>Expense\<close>, each of its type. A repeated key has its last value.
\<close>

definition property :: "(jsstring \<times> json) list \<Rightarrow> jsstring \<Rightarrow> json option" where
  "property kvs k = map_of (rev kvs) k"

definition as_Expense :: "json \<Rightarrow> Expense option" where
  "as_Expense j =
     (case j of
        JObj kvs \<Rightarrow>
          (case (property kvs (lit ''id''), property kvs (lit ''date''), property kvs (lit ''amount''),
                 property kvs (lit ''category''), property kvs (lit ''note'')) of
             (Some (JStr i), Some (JStr d), Some (JNum a), Some (JStr c), Some (JStr n)) \<Rightarrow>
               Some \<lparr> id' = i, date = d, amount = Fin a, category = c, note' = n \<rparr>
           | _ \<Rightarrow> None)
      | _ \<Rightarrow> None)"

definition as_Expenses :: "json \<Rightarrow> Expense list option" where
  "as_Expenses j =
     (case j of
        JArr vs \<Rightarrow> (if list_all (\<lambda>v. as_Expense v \<noteq> None) vs then Some (map (\<lambda>v. the (as_Expense v)) vs) else None)
      | _ \<Rightarrow> None)"

section \<open>The persistence adapter\<close>

text \<open>
  \<open>localStorage\<close>, as far as the page uses it: the slot under \<open>STORAGE_KEY\<close>, whether
  access is denied (every call then throws) and how many code units the slot may hold.
\<close>

record storage =
  denied :: bool
  slot :: "jsstring option"
  quota :: nat

definition getItem :: "storage \<Rightarrow> error + jsstring option" where
  "getItem st = (if denied st then Inl SecurityError else Inr (slot st))"

definition setItem :: "jsstring \<Rightarrow> storage \<Rightarrow> error + storage" where
  "setItem v st =
     (if denied st then Inl SecurityError
      else if quota st < length v then Inl QuotaExceededError
      else Inr (st\<lparr>slot := Some v\<rparr>))"

text \<open>
  The effect that loads on mount: the value it hands to \<open>setExpenses\<close>, \<open>None\<close> when
  it does not call it (the collection then stays empty). Whatever is thrown is caught.
\<close>

definition load :: "storage \<Rightarrow> json option" where
  "load st =
     (case getItem st of
        Inl _ \<Rightarrow> None
      | Inr None \<Rightarrow> None
      | Inr (Some raw) \<Rightarrow>
          if raw = [] then None
          else (case JSON_parse raw of Inl _ \<Rightarrow> None | Inr j \<Rightarrow> Some j))"

text \<open>
  The collection after the loading effect: empty when \<open>setExpenses\<close> was not called;
  \<open>None\<close> when it was called with a value that is not an array of \<open>Expense\<close> objects.
\<close>

definition loaded_expenses :: "storage \<Rightarrow> Expense list option" where
  "loaded_expenses st = (case load st of None \<Rightarrow> Some [] | Some j \<Rightarrow> as_Expenses j)"

text \<open>The effect that saves after every change of the collection.\<close>

definition save :: "Expense list \<Rightarrow> storage \<Rightarrow> storage" where
  "save es st = (case setItem (JSON_stringify es) st of Inl _ \<Rightarrow> st | Inr st' \<Rightarrow> st')"

section \<open>Sample data\<close>

definition e1 :: Expense where
  "e1 = \<lparr> id' = lit ''a1'', date = lit ''2024-03-10'', amount = Fin 10,
          category = lit ''Groceries'', note' = lit ''milk'' \<rparr>"

definition e2 :: Expense where
  "e2 = \<lparr> id' = lit ''a2'', date = lit ''2024-03-12'', amount = Fin 20,
          category = lit ''Groceries'', note' = [] \<rparr>"

definition e3 :: Expense where
  "e3 = \<lparr> id' = lit ''a3'', date = lit ''2024-03-20'', amount = Fin 5,
          category = lit ''Dining'', note' = lit ''lunch'' \<rparr>"

definition e4 :: Expense where
  "e4 = \<lparr> id' = lit ''a4'', date = lit ''2024-02-01'', amount = Fin (5 / 2),
          category = lit ''Travel'', note' = lit ''bus'' \<rparr>"

definition page0 :: page where
  "page0 = \<lparr> expenses = [e3, e2, e1, e4], date_st = lit ''2024-03-21'', amount_st = lit ''12.346'',
             category_st = lit ''Dining'', note_st = lit ''  tea '', filterMonth = lit ''2024-03'' \<rparr>"

definition st0 :: storage where
  "st0 = \<lparr> denied = False, slot = None, quota = 5000000 \<rparr>"

section \<open>Evaluation\<close>

text \<open>The definitions that unfold when a concrete input is evaluated.\<close>

lemmas str_eval = lit_def is_ws_def is_digit_def digits_val_def digit_val_def digit_char_def
  dec_digits.simps int_to_string_def padStart_def

lemmas date_eval = monthKey_def new_Date_def parse_date_only_def days_in_month_def

lemmas float_eval = parseFloat_def unsigned_literal_def skip_sign_def starts_numeric_def
  pow10_def exponent_part_def trim_def

lemmas sample_eval = page0_def e1_def e2_def e3_def e4_def

lemma floor_numeral_div_rat: "\<lfloor>(numeral a / numeral b :: rat)\<rfloor> = numeral a div numeral b"
  using floor_divide_of_int_eq [of "numeral a" "numeral b", where ?'a = rat] by simp

lemmas json_eval = JSON_stringify_def expense_json_def number_json_def QuoteJSONString_def
  quote_unit_def is_lead_def is_trail_def Number_toString_def positive_toString_def
  decimal_places.simps is_int_def strip_zeros.simps format_digits_def floor_numeral_div_rat

section \<open>Numbers\<close>

lemma num_add_commute: "num_add x y = num_add y x"
  by (cases x; cases y) simp_all

lemma num_add_assoc: "num_add (num_add x y) z = num_add x (num_add y z)"
  by (cases x; cases y; cases z) simp_all

lemma num_add_zero [simp]: "num_add (Fin 0) x = x" "num_add x (Fin 0) = x"
  by (cases x; simp)+

lemma foldl_num_add: "foldl num_add a xs = num_add a (foldl num_add (Fin 0) xs)"
proof (induction xs arbitrary: a)
  case Nil
  then show ?case by simp
next
  case (Cons x xs)
  have "foldl num_add a (x # xs) = num_add (num_add a x) (foldl num_add (Fin 0) xs)"
    using Cons.IH [of "num_add a x"] by simp
  also have "\<dots> = num_add a (num_add x (foldl num_add (Fin 0) xs))"
    by (simp add: num_add_assoc)
  also have "\<dots> = num_add a (foldl num_add (Fin 0) (x # xs))"
    using Cons.IH [of x] by simp
  finally show ?case .
qed

lemma cmp_desc_positive:
  "\<not> isNaN a \<Longrightarrow> \<not> isNaN b \<Longrightarrow> num_less (Fin 0) (num_sub b a) = num_less a b"
  by (cases a; cases b) (auto simp: num_sub_def)

lemma num_not_less_le: "\<not> isNaN a \<Longrightarrow> \<not> isNaN b \<Longrightarrow> \<not> num_less a b \<Longrightarrow> num_le b a"
  by (cases a; cases b) auto

lemma num_less_le_trans: "num_less a b \<Longrightarrow> num_le b c \<Longrightarrow> num_less a c"
  by (cases a; cases b; cases c) auto

lemma num_le_trans: "num_le a b \<Longrightarrow> num_le b c \<Longrightarrow> num_le a c"
  by (cases a; cases b; cases c) auto

lemma num_less_imp_le: "num_less a b \<Longrightarrow> num_le a b"
  by (cases a; cases b) auto

section \<open>Adding an entry\<close>








lemma unsigned_literal_None:
  assumes "take 8 u \<noteq> lit ''Infinity''"
    and "case u of [] \<Rightarrow> True | c # r \<Rightarrow> \<not> is_digit c \<and> (c = 0x2E \<longrightarrow> (case r of [] \<Rightarrow> True | d # _ \<Rightarrow> \<not> is_digit d))"
  shows "unsigned_literal u = None"
proof (cases u)
  case Nil
  then show ?thesis using assms(1) by (simp add: unsigned_literal_def)
next
  case (Cons c r)
  with assms(2) have c: "\<not> is_digit c" and d: "c = 0x2E \<Longrightarrow> r = [] \<or> \<not> is_digit (hd r)"
    by (auto split: list.splits)
  have "takeWhile is_digit r = []" if "c = 0x2E"
    using d [OF that] by (cases r) auto
  then show ?thesis
    using assms(1) c Cons by (simp add: unsigned_literal_def Let_def)
qed

lemma parseFloat_not_numeric: "\<not> starts_numeric a \<Longrightarrow> parseFloat a = NaN"
proof -
  assume ns: "\<not> starts_numeric a"
  define u where "u = skip_sign (dropWhile is_ws a)"
  from ns have "take 8 u \<noteq> lit ''Infinity''"
    and "case u of [] \<Rightarrow> True | c # r \<Rightarrow> \<not> is_digit c \<and> (c = 0x2E \<longrightarrow> (case r of [] \<Rightarrow> True | d # _ \<Rightarrow> \<not> is_digit d))"
    unfolding starts_numeric_def Let_def u_def by (auto split: list.splits)
  then have "unsigned_literal u = None"
    by (rule unsigned_literal_None)
  then show ?thesis
    by (simp add: parseFloat_def Let_def u_def)
qed

lemma starts_numeric_Nil: "\<not> starts_numeric []"
  by (simp add: starts_numeric_def skip_sign_def lit_def)

text \<open>
  Claim C2. When the date field is empty, or the amount field is empty, does not start
  like a number, or parses to a number that is not strictly positive, \<open>addExpense\<close>
  returns the state it was given: the collection and the form are unchanged, and
  nothing is raised.
\<close>

theorem addExpense_invalid:
  assumes "date_st s = [] \<or> amount_st s = [] \<or> \<not> starts_numeric (amount_st s) \<or>
           num_le (parseFloat (amount_st s)) (Fin 0)"
  shows "addExpense uuid s = s"
proof -
  have "date_st s = [] \<or> isNaN (parseFloat (amount_st s)) \<or> num_le (parseFloat (amount_st s)) (Fin 0)"
    using assms parseFloat_not_numeric [of "amount_st s"] starts_numeric_Nil by auto
  then show ?thesis
    by (auto simp: addExpense_def Let_def)
qed

theorem addExpense_invalid_witness:
  "\<not> starts_numeric (amount_st (page0\<lparr>amount_st := lit ''abc''\<rparr>)) \<and>
   addExpense (lit ''u1'') (page0\<lparr>amount_st := lit ''abc''\<rparr>) = page0\<lparr>amount_st := lit ''abc''\<rparr> \<and>
   num_le (parseFloat (amount_st (page0\<lparr>amount_st := lit ''-3''\<rparr>))) (Fin 0) \<and>
   addExpense (lit ''u1'') (page0\<lparr>amount_st := lit ''-3''\<rparr>) = page0\<lparr>amount_st := lit ''-3''\<rparr>"
proof -
  have h: "\<not> starts_numeric (amount_st (page0\<lparr>amount_st := lit ''abc''\<rparr>))"
    by (simp add: float_eval str_eval)
  have h': "num_le (parseFloat (amount_st (page0\<lparr>amount_st := lit ''-3''\<rparr>))) (Fin 0)"
    by (simp add: float_eval str_eval)
  show ?thesis
    using addExpense_invalid [of "page0\<lparr>amount_st := lit ''abc''\<rparr>" "lit ''u1''"]
      addExpense_invalid [of "page0\<lparr>amount_st := lit ''-3''\<rparr>" "lit ''u1''"] h h'
    by blast
qed

text \<open>
  Claim C9. No entry that \<open>addExpense\<close> accepts is dated after the current date. The
  code does not keep this: \<open>addExpense\<close> checks only that the date is not empty. On
  2024-06-15, the date field set to 2999-01-01 and the amount to 5, the entry is stored.
\<close>

theorem addExpense_accepts_future_date:
  "expenses (run (initial (lit ''2024-06-15''))
      [SetDate (lit ''2999-01-01''), SetAmount (lit ''5''), Add (lit ''u1'')])
     = [\<lparr> id' = lit ''u1'', date = lit ''2999-01-01'', amount = Fin 5,
          category = lit ''Groceries'', note' = [] \<rparr>] \<and>
   lit ''2024-06-15'' < lit ''2999-01-01''"
  by (simp add: run_def initial_def addExpense_def CATEGORIES_def float_eval str_eval floor_numeral_div_rat)

section \<open>Removing an entry\<close>

text \<open>
  Claim C6. Removing an id twice is the same as removing it once, and removing an id
  that no entry carries leaves the collection (and the whole state) as it was.
\<close>

theorem removeExpense_idempotent:
  "removeExpense i (removeExpense i s) = removeExpense i s \<and>
   (i \<notin> id' ` set (expenses s) \<longrightarrow> removeExpense i s = s)"
proof -
  have "i \<notin> id' ` set (expenses s) \<Longrightarrow> filter (\<lambda>e. id' e \<noteq> i) (expenses s) = expenses s"
    by (induction "expenses s") (auto simp: filter_id_conv)
  then show ?thesis
    by (simp add: removeExpense_def)
qed

theorem removeExpense_idempotent_witness:
  "removeExpense (lit ''a2'') (removeExpense (lit ''a2'') page0) = removeExpense (lit ''a2'') page0 \<and>
   lit ''zz'' \<notin> id' ` set (expenses page0) \<and>
   removeExpense (lit ''zz'') page0 = page0"
proof -
  have h: "lit ''zz'' \<notin> id' ` set (expenses page0)"
    by (simp add: page0_def e1_def e2_def e3_def e4_def lit_def)
  show ?thesis
    using removeExpense_idempotent [of "lit ''a2''" page0]
      removeExpense_idempotent [of "lit ''zz''" page0] h
    by simp
qed

text \<open>
  Claim C10. \<open>removeExpense\<close> keeps every entry whose id differs from the given one,
  as it was and as many times as it occurred, keeps no entry with the given id, keeps
  the remaining entries in their order, and changes nothing else in the state.
\<close>

theorem removeExpense_frame:
  "(\<forall>e. id' e \<noteq> i \<longrightarrow> count_list (expenses (removeExpense i s)) e = count_list (expenses s) e) \<and>
   (\<forall>e \<in> set (expenses (removeExpense i s)). id' e \<noteq> i) \<and>
   subseq (expenses (removeExpense i s)) (expenses s) \<and>
   removeExpense i s = s\<lparr>expenses := expenses (removeExpense i s)\<rparr>"
proof -
  have "id' e \<noteq> i \<Longrightarrow> count_list (filter (\<lambda>e. id' e \<noteq> i) xs) e = count_list xs e"
    for e :: Expense and xs
    by (induction xs) auto
  then show ?thesis
    by (simp add: removeExpense_def)
qed

theorem removeExpense_frame_witness:
  "id' e1 \<noteq> lit ''a2'' \<and>
   count_list (expenses (removeExpense (lit ''a2'') page0)) e1 = count_list (expenses page0) e1 \<and>
   subseq (expenses (removeExpense (lit ''a2'') page0)) (expenses page0) \<and>
   expenses (removeExpense (lit ''a2'') page0) = [e3, e1, e4]"
proof -
  have h: "id' e1 \<noteq> lit ''a2''"
    by (simp add: e1_def lit_def)
  have v: "expenses (removeExpense (lit ''a2'') page0) = [e3, e1, e4]"
    by (simp add: removeExpense_def page0_def e1_def e2_def e3_def e4_def lit_def)
  show ?thesis
    using removeExpense_frame [of "lit ''a2''" page0] h v by simp
qed

section \<open>Totals\<close>

lemma sum_values_Cons: "sum_values ((k, v) # m) = num_add v (sum_values m)"
  using foldl_num_add [of v "map snd m"] by (simp add: sum_values_def)

lemma sum_values_map_set:
  "sum_values (map_set k (num_add (case map_get m k of None \<Rightarrow> Fin 0 | Some v \<Rightarrow> v) a) m)
     = num_add (sum_values m) a"
proof (induction m)
  case Nil
  then show ?case by (simp add: sum_values_Cons) (simp add: sum_values_def)
next
  case (Cons p m)
  obtain k' v' where p: "p = (k', v')" by (cases p)
  show ?case
  proof (cases "k' = k")
    case True
    then show ?thesis
      by (simp add: p sum_values_Cons num_add_assoc) (metis num_add_assoc num_add_commute)
  next
    case False
    then show ?thesis
      using Cons.IH by (simp add: p sum_values_Cons num_add_assoc)
  qed
qed

lemma sum_values_foldl:
  "sum_values (foldl (\<lambda>m e. map_set (category e)
          (num_add (case map_get m (category e) of None \<Rightarrow> Fin 0 | Some v \<Rightarrow> v) (amount e)) m) m0 fs)
   = foldl (\<lambda>s e. num_add s (amount e)) (sum_values m0) fs"
proof (induction fs arbitrary: m0)
  case Nil
  then show ?case by simp
next
  case (Cons e fs)
  show ?case
    by (simp add: Cons.IH sum_values_map_set)
qed

text \<open>
  Claim C3. For every collection and every month key, the values of the per-category
  mapping computed over the entries of that month add up to the total computed over
  them (finite amounts being exact rationals).
\<close>

theorem byCategory_sums_to_total:
  "sum_values (byCategory (totals_of (filtered c m))) = total (totals_of (filtered c m))"
  by (simp add: totals_of_def sum_values_foldl) (simp add: sum_values_def)

theorem byCategory_sums_to_total_witness:
  "sum_values (byCategory (totals_of (filtered (expenses page0) (lit ''2024-03'')))) = Fin 35 \<and>
   byCategory (totals_of (filtered (expenses page0) (lit ''2024-03''))) =
     [(lit ''Dining'', Fin 5), (lit ''Groceries'', Fin 30)]"
proof -
  have t: "total (totals_of (filtered (expenses page0) (lit ''2024-03''))) = Fin 35"
    by (simp add: totals_of_def filtered_def sample_eval date_eval str_eval)
  have b: "byCategory (totals_of (filtered (expenses page0) (lit ''2024-03''))) =
     [(lit ''Dining'', Fin 5), (lit ''Groceries'', Fin 30)]"
    by (simp add: totals_of_def filtered_def sample_eval date_eval str_eval)
  show ?thesis
    using byCategory_sums_to_total [of "expenses page0" "lit ''2024-03''"] t b by simp
qed

section \<open>The months on offer\<close>

lemma Set_from_aux:
  "set (foldl (\<lambda>s x. if x \<in> set s then s else s @ [x]) acc xs) = set acc \<union> set xs \<and>
   (distinct acc \<longrightarrow> distinct (foldl (\<lambda>s x. if x \<in> set s then s else s @ [x]) acc xs))"
  by (induction xs arbitrary: acc) auto

lemma set_Set_from: "set (Set_from xs) = set xs"
  using Set_from_aux [of "[]" xs] by (simp add: Set_from_def)

lemma distinct_Set_from: "distinct (Set_from xs)"
  using Set_from_aux [of "[]" xs] by (simp add: Set_from_def)

lemma sorted_wrt_rev_sort:
  fixes xs :: "'a::linorder list"
  assumes "distinct xs"
  shows "sorted_wrt (\<lambda>a b. b < a) (rev (sort xs))"
proof -
  have "sorted_wrt (<) (sort xs)"
    using assms by (simp add: strict_sorted_iff)
  then show ?thesis
    by (simp add: sorted_wrt_rev)
qed

text \<open>
  Claim C7. For a collection that is not empty, \<open>monthsAvailable\<close> is the month keys
  of all its entries, each once, in strictly descending lexicographic order; for the
  empty collection it is the one key of the current month.
\<close>

theorem monthsAvailable_keys:
  "(es \<noteq> [] \<longrightarrow>
      set (monthsAvailable today es) = (\<lambda>e. monthKey (date e)) ` set es \<and>
      distinct (monthsAvailable today es) \<and>
      sorted_wrt (\<lambda>a b. b < a) (monthsAvailable today es)) \<and>
   monthsAvailable today [] = [monthKey today]"
proof -
  let ?ks = "Set_from (map (\<lambda>e. monthKey (date e)) es)"
  have ne: "es \<noteq> [] \<Longrightarrow> rev (sort ?ks) \<noteq> []"
    using set_Set_from [of "map (\<lambda>e. monthKey (date e)) es"]
    by (metis (no_types, lifting) Nil_is_map_conv rev_is_Nil_conv set_empty set_sort)
  have srt: "sorted_wrt (\<lambda>a b. b < a) (rev (sort ?ks))"
    by (rule sorted_wrt_rev_sort) (rule distinct_Set_from)
  have "monthsAvailable today [] = [monthKey today]"
    by (simp add: monthsAvailable_def Set_from_def)
  moreover have "es \<noteq> [] \<Longrightarrow> monthsAvailable today es = rev (sort ?ks)"
    using ne by (simp add: monthsAvailable_def Let_def)
  ultimately show ?thesis
    using srt by (auto simp: set_Set_from distinct_Set_from)
qed

theorem monthsAvailable_keys_witness:
  "expenses page0 \<noteq> [] \<and>
   monthsAvailable (lit ''2024-06-01'') (expenses page0) = [lit ''2024-03'', lit ''2024-02''] \<and>
   sorted_wrt (\<lambda>a b. b < a) (monthsAvailable (lit ''2024-06-01'') (expenses page0)) \<and>
   monthsAvailable (lit ''2024-06-01'') [] = [lit ''2024-06'']"
proof -
  have h: "expenses page0 \<noteq> []"
    by (simp add: page0_def)
  have v: "monthsAvailable (lit ''2024-06-01'') (expenses page0) = [lit ''2024-03'', lit ''2024-02'']"
    by (simp add: monthsAvailable_def Set_from_def sample_eval date_eval str_eval)
  have k: "monthKey (lit ''2024-06-01'') = lit ''2024-06''"
    by (simp add: date_eval str_eval)
  show ?thesis
    using monthsAvailable_keys [of "expenses page0" "lit ''2024-06-01''"] h v k by simp
qed

section \<open>The top category\<close>

lemma sort_by_Cons: "sort_by cmp (x # xs) = insert_by cmp x (sort_by cmp xs)"
  by (simp add: sort_by_def)

lemma sort_by_first_max:
  fixes m :: "('k \<times> number) list"
  assumes "m \<noteq> []" and "\<forall>p \<in> set m. \<not> isNaN (snd p)"
  shows "\<exists>pre best post rest. m = pre @ best # post \<and>
           sort_by (\<lambda>a b. num_sub (snd b) (snd a)) m = best # rest \<and>
           (\<forall>p \<in> set pre. num_less (snd p) (snd best)) \<and>
           (\<forall>p \<in> set post. num_le (snd p) (snd best))"
  using assms
proof (induction m)
  case Nil
  then show ?case by simp
next
  case (Cons x xs)
  let ?cmp = "\<lambda>(a :: 'k \<times> number) (b :: 'k \<times> number). num_sub (snd b) (snd a)"
  show ?case
  proof (cases "xs = []")
    case True
    then have "x # xs = [] @ x # [] \<and> sort_by ?cmp (x # xs) = x # []"
      by (simp add: sort_by_def)
    then show ?thesis
      by (metis empty_iff list.set(1))
  next
    case False
    moreover have "\<forall>p \<in> set xs. \<not> isNaN (snd p)"
      using Cons.prems(2) by simp
    ultimately have "\<exists>pre best post rest. xs = pre @ best # post \<and>
           sort_by ?cmp xs = best # rest \<and>
           (\<forall>p \<in> set pre. num_less (snd p) (snd best)) \<and>
           (\<forall>p \<in> set post. num_le (snd p) (snd best))"
      by (rule Cons.IH)
    then obtain pre best post rest where
      xs: "xs = pre @ best # post" and s: "sort_by ?cmp xs = best # rest"
      and pre: "\<forall>p \<in> set pre. num_less (snd p) (snd best)"
      and post: "\<forall>p \<in> set post. num_le (snd p) (snd best)"
      by blast
    have nx: "\<not> isNaN (snd x)" and nb: "\<not> isNaN (snd best)"
      using Cons.prems(2) xs by auto
    show ?thesis
    proof (cases "num_less (snd x) (snd best)")
      case True
      then have "sort_by ?cmp (x # xs) = best # insert_by ?cmp x rest"
        using nx nb by (simp add: sort_by_Cons s cmp_desc_positive)
      moreover have "x # xs = (x # pre) @ best # post"
        by (simp add: xs)
      moreover have "\<forall>p \<in> set (x # pre). num_less (snd p) (snd best)"
        using True pre by simp
      ultimately show ?thesis
        using post by blast
    next
      case False
      then have le: "num_le (snd best) (snd x)"
        using nx nb by (rule num_not_less_le [rotated 2])
      have "sort_by ?cmp (x # xs) = x # best # rest"
        using False nx nb by (simp add: sort_by_Cons s cmp_desc_positive)
      moreover have "x # xs = [] @ x # xs"
        by simp
      moreover have "\<forall>p \<in> set xs. num_le (snd p) (snd x)"
      proof
        fix p assume "p \<in> set xs"
        then have "p \<in> set pre \<or> p = best \<or> p \<in> set post"
          by (auto simp: xs)
        then have "num_le (snd p) (snd best) \<or> p = best"
          using pre post by (auto intro: num_less_imp_le)
        then show "num_le (snd p) (snd x)"
          using le by (auto intro: num_le_trans)
      qed
      ultimately show ?thesis
        by (metis empty_iff list.set(1))
    qed
  qed
qed

text \<open>
  Claim C8. For a mapping that is not empty and has no \<open>NaN\<close> among its values, the
  top category is an entry of the mapping whose amount is the greatest, and the first
  such entry in the order of the mapping: every entry before it has a strictly smaller
  amount, every entry after it an amount that is not greater.
\<close>

theorem topCategory_first_max:
  assumes "m \<noteq> []" and "\<forall>p \<in> set m. \<not> isNaN (snd p)"
  shows "\<exists>pre best post. m = pre @ best # post \<and> topCategory m = Some best \<and>
           (\<forall>p \<in> set pre. num_less (snd p) (snd best)) \<and>
           (\<forall>p \<in> set post. num_le (snd p) (snd best))"
proof -
  from sort_by_first_max [OF assms] obtain pre best post rest where
    "m = pre @ best # post" "sort_by (\<lambda>a b. num_sub (snd b) (snd a)) m = best # rest"
    "\<forall>p \<in> set pre. num_less (snd p) (snd best)" "\<forall>p \<in> set post. num_le (snd p) (snd best)"
    by blast
  moreover from this have "topCategory m = Some best"
    using assms(1) by (simp add: topCategory_def)
  ultimately show ?thesis
    by blast
qed

theorem topCategory_first_max_witness:
  "[(lit ''Groceries'', Fin 30), (lit ''Dining'', Fin 30), (lit ''Travel'', Fin 5)] \<noteq> [] \<and>
   list_all (\<lambda>p. \<not> isNaN (snd p))
     [(lit ''Groceries'', Fin 30), (lit ''Dining'', Fin 30), (lit ''Travel'', Fin 5)] \<and>
   topCategory [(lit ''Groceries'', Fin 30), (lit ''Dining'', Fin 30), (lit ''Travel'', Fin 5)]
     = Some (lit ''Groceries'', Fin 30)"
proof -
  let ?m = "[(lit ''Groceries'', Fin 30), (lit ''Dining'', Fin 30), (lit ''Travel'', Fin 5)]"
  have h1: "?m \<noteq> []" by simp
  have h2: "\<forall>p \<in> set ?m. \<not> isNaN (snd p)" by simp
  have v: "topCategory ?m = Some (lit ''Groceries'', Fin 30)"
    by (simp add: topCategory_def sort_by_def num_sub_def)
  show ?thesis
    using topCategory_first_max [OF h1 h2] v by simp
qed

section \<open>JSON strings\<close>

lemma lt16_cases:
  "(d :: nat) < 16 \<Longrightarrow> d = 0 \<or> d = 1 \<or> d = 2 \<or> d = 3 \<or> d = 4 \<or> d = 5 \<or> d = 6 \<or> d = 7 \<or>
     d = 8 \<or> d = 9 \<or> d = 10 \<or> d = 11 \<or> d = 12 \<or> d = 13 \<or> d = 14 \<or> d = 15"
  by arith

lemma hex_val_hex_digit: "d < 16 \<Longrightarrow> hex_val (hex_digit d) = Some d"
  by (drule lt16_cases) (elim disjE; simp add: hex_val_def hex_digit_def)

lemma hex_digits_sum:
  "(n::nat) div 4096 * 4096 + n div 256 mod 16 * 256 + n div 16 mod 16 * 16 + n mod 16 = n"
proof -
  have e1: "n div 256 = n div 16 div 16"
    using div_mult2_eq [of n 16 16] by simp
  have e2: "n div 4096 = n div 256 div 16"
    using div_mult2_eq [of n 256 16] by simp
  have a: "n div 16 = n div 256 * 16 + n div 16 mod 16"
    unfolding e1 by simp
  have b: "n div 256 = n div 4096 * 16 + n div 256 mod 16"
    unfolding e2 by simp
  have c: "n = n div 16 * 16 + n mod 16"
    by simp
  show ?thesis
    using a b c by linarith
qed

lemma hex4_val_hex4: "hex4_val (hex4 c) = Some c"
proof -
  define n where "n = unat c"
  have n: "n < 65536"
    using unsigned_less [of c, where ?'a = nat] by (simp add: n_def)
  have d: "n div 4096 < 16" "n div 256 mod 16 < 16" "n div 16 mod 16 < 16" "n mod 16 < 16"
    using n by simp_all
  have s: "n div 4096 * 4096 + n div 256 mod 16 * 256 + n div 16 mod 16 * 16 + n mod 16 = n"
    by (rule hex_digits_sum)
  have "hex4_val (hex4 c) = Some (of_nat n)"
    using d s by (simp add: hex4_val_def hex4_def Let_def hex_val_hex_digit n_def [symmetric])
  then show ?thesis
    by (simp add: n_def)
qed

lemma length_hex4: "length (hex4 c) = 4"
  by (simp add: hex4_def Let_def)

lemma parse_chars_quote_unit:
  "parse_chars (quote_unit c @ t) = map_option (apfst ((#) c)) (parse_chars t)"
proof -
  have u: "parse_chars ([0x5C, 0x75] @ hex4 c @ t) = map_option (apfst ((#) c)) (parse_chars t)"
    by (simp add: hex4_val_hex4 length_hex4)
  show ?thesis
    unfolding quote_unit_def using u
    by (simp add: unescape_def is_lead_def is_trail_def)
qed

lemma parse_chars_quote_units:
  "parse_chars (quote_units s @ 0x22 # rest) = Some (s, rest)"
proof (induction s rule: quote_units.induct)
  case (1 c d ds)
  show ?case
  proof (cases "is_lead c \<and> is_trail d")
    case True
    then have "\<not> c < 0x20" "c \<noteq> 0x22" "c \<noteq> 0x5C" "\<not> d < 0x20" "d \<noteq> 0x22" "d \<noteq> 0x5C"
      by (auto simp: is_lead_def is_trail_def word_le_nat_alt word_less_nat_alt)
    then show ?thesis
      using True 1 by simp
  next
    case False
    then have "quote_units (c # d # ds) @ 0x22 # rest =
        quote_unit c @ (quote_units (d # ds) @ 0x22 # rest)"
      by auto
    then have "parse_chars (quote_units (c # d # ds) @ 0x22 # rest) =
        map_option (apfst ((#) c)) (parse_chars (quote_units (d # ds) @ 0x22 # rest))"
      by (simp only: parse_chars_quote_unit)
    also have "\<dots> = Some (c # d # ds, rest)"
      using False 1(2) by simp
    finally show ?thesis .
  qed
next
  case (2 c)
  show ?case
    using parse_chars_quote_unit [of c "0x22 # rest"] by simp
next
  case 3
  show ?case by simp
qed

lemma parse_chars_QuoteJSONString:
  "parse_chars (tl (QuoteJSONString s) @ rest) = Some (s, rest)"
  by (simp add: QuoteJSONString_def parse_chars_quote_units)

section \<open>Digits and decimals\<close>

lemma lt10_cases:
  "(d :: nat) < 10 \<Longrightarrow> d = 0 \<or> d = 1 \<or> d = 2 \<or> d = 3 \<or> d = 4 \<or> d = 5 \<or> d = 6 \<or> d = 7 \<or> d = 8 \<or> d = 9"
  by arith

lemma is_digit_digit_char: "d < 10 \<Longrightarrow> is_digit (digit_char d)"
  by (drule lt10_cases) (elim disjE; simp add: is_digit_def digit_char_def)

lemma digit_val_digit_char: "d < 10 \<Longrightarrow> digit_val (digit_char d) = d"
  by (drule lt10_cases) (elim disjE; simp add: digit_val_def digit_char_def)

lemma digit_char_zero: "d < 10 \<Longrightarrow> (digit_char d = 0x30) = (d = 0)"
  by (drule lt10_cases) (elim disjE; simp add: digit_char_def)

lemma dec_digits_all: "list_all is_digit (dec_digits n)"
  by (induction n rule: dec_digits.induct) (subst dec_digits.simps, simp add: is_digit_digit_char)

lemma dec_digits_ne: "dec_digits n \<noteq> []"
  by (subst dec_digits.simps) simp

lemma foldl_digits:
  "foldl (\<lambda>n c. 10 * n + digit_val c) a ys = a * 10 ^ length ys + foldl (\<lambda>n c. 10 * n + digit_val c) 0 ys"
proof (induction ys arbitrary: a)
  case Nil
  then show ?case by simp
next
  case (Cons y ys)
  show ?case
    using Cons [of "10 * a + digit_val y"] Cons [of "digit_val y"]
    by (simp add: algebra_simps)
qed

lemma digits_val_append: "digits_val (xs @ ys) = digits_val xs * 10 ^ length ys + digits_val ys"
  using foldl_digits [of "digits_val xs" ys] by (simp add: digits_val_def)

lemma digits_val_single: "digits_val [c] = digit_val c"
  by (simp add: digits_val_def)

lemma digits_val_dec_digits: "digits_val (dec_digits n) = n"
proof (induction n rule: dec_digits.induct)
  case (1 n)
  show ?case
  proof (cases "n < 10")
    case True
    then show ?thesis
      by (subst dec_digits.simps) (simp add: digits_val_single digit_val_digit_char)
  next
    case False
    then have "digits_val (dec_digits n) = digits_val (dec_digits (n div 10)) * 10 + n mod 10"
      by (subst dec_digits.simps) (simp add: digits_val_append digits_val_single digit_val_digit_char)
    then show ?thesis
      using 1 False by simp
  qed
qed

lemma hd_dec_digits: "0 < n \<Longrightarrow> hd (dec_digits n) \<noteq> 0x30"
proof (induction n rule: dec_digits.induct)
  case (1 n)
  show ?case
  proof (cases "n < 10")
    case True
    then show ?thesis
      using 1(2) by (subst dec_digits.simps) (simp add: digit_char_zero)
  next
    case False
    then have "hd (dec_digits n) = hd (dec_digits (n div 10))"
      by (subst dec_digits.simps) (simp add: dec_digits_ne)
    then show ?thesis
      using 1 False by simp
  qed
qed

lemma digits_val_zeros: "digits_val (replicate m 0x30) = 0"
proof (induction m)
  case 0
  then show ?case by (simp add: digits_val_def)
next
  case (Suc m)
  have "replicate (Suc m) (0x30 :: jschar) = replicate m 0x30 @ [0x30]"
    by (simp add: replicate_append_same)
  then show ?case
    using Suc by (simp add: digits_val_append digits_val_single digit_val_def del: replicate_Suc)
qed

lemma pow10_powi: "pow10 e = 10 powi e"
  by (simp add: pow10_def power_int_def field_simps)

lemma pow10_add: "pow10 (a + b) = pow10 a * pow10 b"
  by (simp add: pow10_powi power_int_add)

lemma pow10_nat: "pow10 (int n) = 10 ^ n"
  by (simp add: pow10_def)

lemma pow10_neg_nat: "pow10 (- int n) * 10 ^ n = 1"
  by (simp add: pow10_powi power_int_minus)

lemma strip_zeros_eq: "strip_zeros n = (s, z) \<Longrightarrow> n = s * 10 ^ z \<and> (0 < n \<longrightarrow> 0 < s)"
proof (induction n arbitrary: s z rule: strip_zeros.induct)
  case (1 n)
  show ?case
  proof (cases "n = 0 \<or> n mod 10 \<noteq> 0")
    case True
    then show ?thesis
      using 1(2) by (subst (asm) strip_zeros.simps) auto
  next
    case False
    obtain s' z' where p: "strip_zeros (n div 10) = (s', z')"
      by (cases "strip_zeros (n div 10)")
    with False 1(2) have sz: "s = s'" "z = Suc z'"
      by (subst (asm) strip_zeros.simps; simp)+
    have "n div 10 = s' * 10 ^ z' \<and> (0 < n div 10 \<longrightarrow> 0 < s')"
      using 1(1) [OF False p] .
    moreover have "n = n div 10 * 10" "0 < n div 10"
      using False by auto
    ultimately show ?thesis
      using sz by auto
  qed
qed

lemma decimal_places_int: "decimal_places f q = Some e \<Longrightarrow> is_int (q * 10 ^ e)"
proof (induction f q arbitrary: e rule: decimal_places.induct)
  case (1 f q)
  show ?case
  proof (cases "is_int q")
    case True
    then show ?thesis
      using 1(2) by (subst (asm) decimal_places.simps) simp
  next
    case False
    with 1(2) have f: "f \<noteq> 0" and m: "map_option Suc (decimal_places (f - 1) (q * 10)) = Some e"
      by (subst (asm) decimal_places.simps; simp split: if_splits)+
    then obtain e' where e': "decimal_places (f - 1) (q * 10) = Some e'" "e = Suc e'"
      by auto
    have "is_int (q * 10 * 10 ^ e')"
      using 1(1) [OF False f e'(1)] .
    then show ?thesis
      by (simp add: e'(2) mult.assoc)
  qed
qed

section \<open>Parsing a number\<close>

lemma is_digit_not_special:
  "is_digit c \<Longrightarrow> c \<noteq> 0x2D \<and> c \<noteq> 0x2B \<and> c \<noteq> 0x2E \<and> c \<noteq> 0x65 \<and> c \<noteq> 0x45 \<and> c \<noteq> 0x22 \<and> c \<noteq> 0x7B \<and> c \<noteq> 0x5B"
  by (auto simp: is_digit_def)

lemma takeWhile_digits_end:
  assumes "list_all is_digit ds" and "r = [] \<or> \<not> is_digit (hd r)"
  shows "takeWhile is_digit (ds @ r) = ds" and "dropWhile is_digit (ds @ r) = r"
proof -
  have a: "\<And>x. x \<in> set ds \<Longrightarrow> is_digit x"
    using assms(1) by (simp add: list_all_iff)
  have "takeWhile is_digit r = []" "dropWhile is_digit r = r"
    using assms(2) by (cases r; simp)+
  then show "takeWhile is_digit (ds @ r) = ds" "dropWhile is_digit (ds @ r) = r"
    using a by (simp_all add: takeWhile_append2 dropWhile_append2)
qed

lemma number_end_stop: "number_end r \<Longrightarrow> r = [] \<or> \<not> is_digit (hd r)"
  by (cases r) (simp_all add: number_end_def)

lemma int_part_digits:
  assumes "ip \<noteq> []" and "list_all is_digit ip" and "hd ip = 0x30 \<longrightarrow> ip = [0x30]"
    and "r = [] \<or> \<not> is_digit (hd r)"
  shows "int_part (ip @ r) = ip"
proof (cases "hd ip = 0x30")
  case True
  then show ?thesis
    using assms(1,3) by (simp add: int_part_def)
next
  case False
  then show ?thesis
    using assms(1) takeWhile_digits_end(1) [OF assms(2,4)] by (simp add: int_part_def)
qed

lemma frac_part_none: "number_end r \<Longrightarrow> frac_part r = Some ([], r)"
  by (cases r) (simp_all add: frac_part_def number_end_def)

lemma frac_part_exp: "frac_part (0x65 # r) = Some ([], 0x65 # r)"
  by (simp add: frac_part_def)

lemma frac_part_digits:
  assumes "fp \<noteq> []" and "list_all is_digit fp" and "r = [] \<or> \<not> is_digit (hd r)"
  shows "frac_part (0x2E # fp @ r) = Some (fp, r)"
  using assms(1) takeWhile_digits_end [OF assms(2,3)] by (simp add: frac_part_def)

lemma exp_part_none: "number_end r \<Longrightarrow> exp_part r = Some (0, r)"
  by (cases r) (simp_all add: exp_part_def number_end_def)

lemma exp_part_digits:
  assumes "ed \<noteq> []" and "list_all is_digit ed" and "r = [] \<or> \<not> is_digit (hd r)"
    and "sg = 0x2D \<or> sg = 0x2B"
  shows "exp_part (0x65 # sg # ed @ r) =
           Some (if sg = 0x2D then - int (digits_val ed) else int (digits_val ed), r)"
  using assms(1,4) takeWhile_digits_end [OF assms(2,3)] by (auto simp: exp_part_def Let_def)

text \<open>The shapes of text that \<open>format_digits\<close> produces, parsed back.\<close>

lemma parse_number_plain:
  assumes "ip \<noteq> []" and "list_all is_digit ip" and "hd ip = 0x30 \<longrightarrow> ip = [0x30]"
    and "number_end r"
  shows "parse_number (ip @ r) = Some (of_nat (digits_val ip), r)"
proof -
  have d: "is_digit (hd ip)"
    using assms(1,2) by (cases ip) simp_all
  then have n: "hd (ip @ r) \<noteq> 0x2D"
    using assms(1) is_digit_not_special [of "hd ip"] by simp
  have i: "int_part (ip @ r) = ip"
    using assms(1-3) number_end_stop [OF assms(4)] by (rule int_part_digits)
  show ?thesis
    using n i assms(1) frac_part_none [OF assms(4)] exp_part_none [OF assms(4)]
    by (simp add: parse_number_def Let_def pow10_def)
qed

lemma parse_number_frac:
  assumes "ip \<noteq> []" and "list_all is_digit ip" and "hd ip = 0x30 \<longrightarrow> ip = [0x30]"
    and "fp \<noteq> []" and "list_all is_digit fp" and "number_end r"
  shows "parse_number (ip @ 0x2E # fp @ r) =
           Some (of_nat (digits_val (ip @ fp)) * pow10 (- int (length fp)), r)"
proof -
  have d: "is_digit (hd ip)"
    using assms(1,2) by (cases ip) simp_all
  then have n: "hd (ip @ 0x2E # fp @ r) \<noteq> 0x2D"
    using assms(1) is_digit_not_special [of "hd ip"] by simp
  have i: "int_part (ip @ 0x2E # fp @ r) = ip"
    using assms(1-3) by (rule int_part_digits) (simp add: is_digit_def)
  have f: "frac_part (0x2E # fp @ r) = Some (fp, r)"
    using assms(4,5) number_end_stop [OF assms(6)] by (rule frac_part_digits)
  show ?thesis
    using n i f assms(1) exp_part_none [OF assms(6)]
    by (simp add: parse_number_def Let_def)
qed

lemma parse_number_exp:
  assumes "ip \<noteq> []" and "list_all is_digit ip" and "hd ip = 0x30 \<longrightarrow> ip = [0x30]"
    and "ed \<noteq> []" and "list_all is_digit ed" and "sg = 0x2D \<or> sg = 0x2B" and "number_end r"
  shows "parse_number (ip @ 0x65 # sg # ed @ r) =
           Some (of_nat (digits_val ip) *
                   pow10 (if sg = 0x2D then - int (digits_val ed) else int (digits_val ed)), r)"
proof -
  have d: "is_digit (hd ip)"
    using assms(1,2) by (cases ip) simp_all
  then have n: "hd (ip @ 0x65 # sg # ed @ r) \<noteq> 0x2D"
    using assms(1) is_digit_not_special [of "hd ip"] by simp
  have i: "int_part (ip @ 0x65 # sg # ed @ r) = ip"
    using assms(1-3) by (rule int_part_digits) (simp add: is_digit_def)
  have e: "exp_part (0x65 # sg # ed @ r) =
           Some (if sg = 0x2D then - int (digits_val ed) else int (digits_val ed), r)"
    using assms(4,5) number_end_stop [OF assms(7)] assms(6) by (rule exp_part_digits)
  show ?thesis
    using n i e assms(1) frac_part_exp
    by (simp add: parse_number_def Let_def)
qed

lemma parse_number_frac_exp:
  assumes "ip \<noteq> []" and "list_all is_digit ip" and "hd ip = 0x30 \<longrightarrow> ip = [0x30]"
    and "fp \<noteq> []" and "list_all is_digit fp"
    and "ed \<noteq> []" and "list_all is_digit ed" and "sg = 0x2D \<or> sg = 0x2B" and "number_end r"
  shows "parse_number (ip @ 0x2E # fp @ 0x65 # sg # ed @ r) =
           Some (of_nat (digits_val (ip @ fp)) *
                   pow10 ((if sg = 0x2D then - int (digits_val ed) else int (digits_val ed))
                          - int (length fp)), r)"
proof -
  have d: "is_digit (hd ip)"
    using assms(1,2) by (cases ip) simp_all
  then have n: "hd (ip @ 0x2E # fp @ 0x65 # sg # ed @ r) \<noteq> 0x2D"
    using assms(1) is_digit_not_special [of "hd ip"] by simp
  have i: "int_part (ip @ 0x2E # fp @ 0x65 # sg # ed @ r) = ip"
    using assms(1-3) by (rule int_part_digits) (simp add: is_digit_def)
  have f: "frac_part (0x2E # fp @ 0x65 # sg # ed @ r) = Some (fp, 0x65 # sg # ed @ r)"
    using assms(4,5) by (rule frac_part_digits) (simp add: is_digit_def)
  have e: "exp_part (0x65 # sg # ed @ r) =
           Some (if sg = 0x2D then - int (digits_val ed) else int (digits_val ed), r)"
    using assms(6,7) number_end_stop [OF assms(9)] assms(8) by (rule exp_part_digits)
  show ?thesis
    using n i f e assms(1)
    by (simp add: parse_number_def Let_def)
qed

section \<open>Printing a number and parsing it back\<close>

lemma format_digits_int:
  "int (length ds) \<le> n \<Longrightarrow> n \<le> 21 \<Longrightarrow>
   format_digits ds n = ds @ replicate (nat (n - int (length ds))) 0x30"
  by (simp add: format_digits_def Let_def)

lemma format_digits_point:
  "0 < n \<Longrightarrow> n < int (length ds) \<Longrightarrow> n \<le> 21 \<Longrightarrow>
   format_digits ds n = take (nat n) ds @ 0x2E # drop (nat n) ds"
  by (simp add: format_digits_def Let_def)

lemma format_digits_small:
  "- 6 < n \<Longrightarrow> n \<le> 0 \<Longrightarrow> ds \<noteq> [] \<Longrightarrow>
   format_digits ds n = [0x30] @ 0x2E # (replicate (nat (- n)) 0x30 @ ds)"
  by (cases ds) (simp_all add: format_digits_def Let_def)

lemma format_digits_exp:
  "21 < n \<or> n \<le> - 6 \<Longrightarrow>
   format_digits ds n =
     (if length ds = 1 then ds else take 1 ds @ 0x2E # drop 1 ds) @
       0x65 # (if 0 \<le> n - 1 then 0x2B else 0x2D) # dec_digits (nat \<bar>n - 1\<bar>)"
  by (auto simp: format_digits_def Let_def)

lemma list_all_take_drop:
  "list_all P xs \<Longrightarrow> list_all P (take m xs) \<and> list_all P (drop m xs)"
  by (auto simp: list_all_iff dest: in_set_takeD in_set_dropD)

lemma parse_number_format_digits:
  assumes s: "0 < s" and r: "number_end r"
  shows "parse_number (format_digits (dec_digits s) n @ r) =
           Some (of_nat s * pow10 (n - int (length (dec_digits s))), r)"
proof -
  define ds where "ds = dec_digits s"
  define k where "k = int (length ds)"
  have ne: "ds \<noteq> []" and dg: "list_all is_digit ds" and hd0: "hd ds \<noteq> 0x30"
    and val: "digits_val ds = s"
    using s by (simp_all add: ds_def dec_digits_ne dec_digits_all hd_dec_digits digits_val_dec_digits)
  have kpos: "0 < k"
    using ne by (simp add: k_def)
  let ?sg = "if 0 \<le> n - 1 then 0x2B else 0x2D :: jschar"
  let ?ed = "dec_digits (nat \<bar>n - 1\<bar>)"
  have sg: "?sg = 0x2D \<or> ?sg = 0x2B"
    by simp
  have ed: "?ed \<noteq> []" "list_all is_digit ?ed"
    by (simp_all add: dec_digits_ne dec_digits_all)
  have ev: "(if ?sg = 0x2D then - int (digits_val ?ed) else int (digits_val ?ed)) = n - 1"
    by (simp add: digits_val_dec_digits)
  consider (A) "k \<le> n" "n \<le> 21"
    | (B) "0 < n" "n < k" "n \<le> 21"
    | (C) "- 6 < n" "n \<le> 0"
    | (D1) "21 < n \<or> n \<le> - 6" "k = 1"
    | (D2) "21 < n \<or> n \<le> - 6" "k \<noteq> 1"
    by linarith
  then have "parse_number (format_digits ds n @ r) = Some (of_nat s * pow10 (n - k), r)"
  proof cases
    case A
    let ?ip = "ds @ replicate (nat (n - k)) 0x30"
    have f: "format_digits ds n @ r = ?ip @ r"
      using A by (simp add: format_digits_int k_def)
    have z: "list_all is_digit (replicate (nat (n - k)) 0x30)"
      by (simp add: list_all_iff is_digit_def)
    have 1: "?ip \<noteq> []" "list_all is_digit ?ip" "hd ?ip = 0x30 \<longrightarrow> ?ip = [0x30]"
      using ne dg hd0 z by simp_all
    have "parse_number (?ip @ r) = Some (of_nat (digits_val ?ip), r)"
      using 1 r by (rule parse_number_plain)
    moreover have "digits_val ?ip = s * 10 ^ nat (n - k)"
      by (simp add: digits_val_append digits_val_zeros val)
    moreover have "pow10 (n - k) = 10 ^ nat (n - k)"
      using A by (simp add: pow10_def)
    ultimately show ?thesis
      by (simp add: f)
  next
    case B
    then have nk: "n < k"
      by simp
    let ?ip = "take (nat n) ds" and ?fp = "drop (nat n) ds"
    have f: "format_digits ds n @ r = ?ip @ 0x2E # ?fp @ r"
      using B by (simp add: format_digits_point k_def)
    have 1: "?ip \<noteq> []" "?fp \<noteq> []"
      using B nk ne by (simp_all add: k_def)
    have 2: "list_all is_digit ?ip" "list_all is_digit ?fp"
      using list_all_take_drop [OF dg] by simp_all
    have 3: "hd ?ip = 0x30 \<longrightarrow> ?ip = [0x30]"
      using B hd0 ne by (simp add: hd_take)
    have "parse_number (?ip @ 0x2E # ?fp @ r) =
        Some (of_nat (digits_val (?ip @ ?fp)) * pow10 (- int (length ?fp)), r)"
      using 1(1) 2(1) 3 1(2) 2(2) r by (rule parse_number_frac)
    moreover have "- int (length ?fp) = n - k"
      using B nk by (simp add: k_def)
    ultimately show ?thesis
      by (simp add: f val)
  next
    case C
    let ?fp = "replicate (nat (- n)) 0x30 @ ds"
    have f: "format_digits ds n @ r = [0x30] @ 0x2E # ?fp @ r"
      using C ne by (simp add: format_digits_small)
    have z: "list_all is_digit (replicate (nat (- n)) 0x30)" "list_all is_digit [0x30]"
      by (simp_all add: list_all_iff is_digit_def)
    have 1: "?fp \<noteq> []" "list_all is_digit ?fp"
      using ne dg z by simp_all
    have "parse_number ([0x30] @ 0x2E # ?fp @ r) =
        Some (of_nat (digits_val ([0x30] @ ?fp)) * pow10 (- int (length ?fp)), r)"
      using _ z(2) _ 1 r by (rule parse_number_frac) simp_all
    moreover have "digits_val ([0x30] @ ?fp) = s"
      by (simp add: digits_val_append [of "[0x30]"] digits_val_append [of "replicate (nat (- n)) 0x30"]
          digits_val_zeros digits_val_single digit_val_def val del: append.simps)
    moreover have "- int (length ?fp) = n - k"
      using C by (simp add: k_def)
    ultimately show ?thesis
      by (simp add: f)
  next
    case D1
    have f: "format_digits ds n @ r = ds @ 0x65 # ?sg # ?ed @ r"
      using D1 by (simp add: format_digits_exp k_def)
    have "parse_number (ds @ 0x65 # ?sg # ?ed @ r) =
        Some (of_nat (digits_val ds) *
                pow10 (if ?sg = 0x2D then - int (digits_val ?ed) else int (digits_val ?ed)), r)"
      using ne dg _ ed sg r by (rule parse_number_exp) (simp add: hd0)
    then have "parse_number (ds @ 0x65 # ?sg # ?ed @ r) = Some (of_nat s * pow10 (n - 1), r)"
      unfolding ev val .
    then show ?thesis
      using D1(2) by (simp add: f)
  next
    case D2
    then have k2: "1 < k"
      using kpos by linarith
    let ?ip = "take 1 ds" and ?fp = "drop 1 ds"
    have f: "format_digits ds n @ r = ?ip @ 0x2E # ?fp @ 0x65 # ?sg # ?ed @ r"
      using D2 by (simp add: format_digits_exp k_def)
    have 1: "?ip \<noteq> []" "?fp \<noteq> []"
      using k2 ne by (simp_all add: k_def)
    have 2: "list_all is_digit ?ip" "list_all is_digit ?fp"
      using list_all_take_drop [OF dg] by simp_all
    have 3: "hd ?ip = 0x30 \<longrightarrow> ?ip = [0x30]"
      using hd0 ne by (simp add: hd_take)
    have "parse_number (?ip @ 0x2E # ?fp @ 0x65 # ?sg # ?ed @ r) =
           Some (of_nat (digits_val (?ip @ ?fp)) *
                   pow10 ((if ?sg = 0x2D then - int (digits_val ?ed) else int (digits_val ?ed))
                          - int (length ?fp)), r)"
      using 1(1) 2(1) 3 1(2) 2(2) ed sg r by (rule parse_number_frac_exp)
    note p = this
    have e2: "n - 1 - int (length ?fp) = n - k"
      using k2 by (simp add: k_def)
    have v: "digits_val (?ip @ ?fp) = s"
      by (simp add: val)
    from p have "parse_number (?ip @ 0x2E # ?fp @ 0x65 # ?sg # ?ed @ r) =
           Some (of_nat s * pow10 (n - k), r)"
      unfolding ev e2 v .
    then show ?thesis
      unfolding f .
  qed
  then show ?thesis
    by (simp add: ds_def k_def)
qed

lemma hd_format_digits:
  assumes "0 < s"
  shows "format_digits (dec_digits s) n \<noteq> [] \<and> is_digit (hd (format_digits (dec_digits s) n))"
proof -
  define ds where "ds = dec_digits s"
  define k where "k = int (length ds)"
  have ne: "ds \<noteq> []" and dg: "list_all is_digit ds"
    by (simp_all add: ds_def dec_digits_ne dec_digits_all)
  then have h: "is_digit (hd ds)"
    by (cases ds) simp_all
  have kpos: "0 < k"
    using ne by (simp add: k_def)
  have z: "is_digit 0x30"
    by (simp add: is_digit_def)
  consider (A) "k \<le> n" "n \<le> 21"
    | (B) "0 < n" "n < k" "n \<le> 21"
    | (C) "- 6 < n" "n \<le> 0"
    | (D) "21 < n \<or> n \<le> - 6"
    by linarith
  then have "format_digits ds n \<noteq> [] \<and> is_digit (hd (format_digits ds n))"
  proof cases
    case A
    then show ?thesis
      using ne h by (simp add: format_digits_int k_def)
  next
    case B
    then show ?thesis
      using ne h by (simp add: format_digits_point k_def hd_append hd_take)
  next
    case C
    then show ?thesis
      using ne z by (simp add: format_digits_small)
  next
    case D
    then show ?thesis
      using ne h by (simp add: format_digits_exp hd_append hd_take)
  qed
  then show ?thesis
    by (simp add: ds_def)
qed

lemma positive_toString_eq:
  assumes q: "0 < q" and e: "decimal_places 1074 q = Some e"
  shows "\<exists>s n. 0 < s \<and> positive_toString q = format_digits (dec_digits s) n \<and>
           of_nat s * pow10 (n - int (length (dec_digits s))) = q"
proof -
  define N where "N = nat \<lfloor>q * 10 ^ e\<rfloor>"
  have "is_int (q * 10 ^ e)"
    using e by (rule decimal_places_int)
  then have i: "of_int \<lfloor>q * 10 ^ e\<rfloor> = q * 10 ^ e"
    by (simp add: is_int_def)
  have p: "0 < q * 10 ^ e"
    using q by simp
  then have "0 < \<lfloor>q * 10 ^ e\<rfloor>"
    using i by (metis of_int_0_less_iff)
  then have N: "0 < N" "of_nat N = q * 10 ^ e"
    using i by (simp_all add: N_def)
  obtain s z where sz: "strip_zeros N = (s, z)"
    by (cases "strip_zeros N")
  then have Ns: "N = s * 10 ^ z" and s: "0 < s"
    using strip_zeros_eq [OF sz] N(1) by simp_all
  define n where "n = int (length (dec_digits s)) + int z - int e"
  have f: "positive_toString q = format_digits (dec_digits s) n"
    using e sz by (simp add: positive_toString_def N_def [symmetric] Let_def n_def)
  have "pow10 (n - int (length (dec_digits s))) = pow10 (int z) * pow10 (- int e)"
    by (simp add: n_def pow10_add [symmetric])
  then have "of_nat s * pow10 (n - int (length (dec_digits s))) * 10 ^ e = of_nat s * 10 ^ z"
    using pow10_neg_nat [of e] by (simp add: pow10_nat mult.assoc)
  also have "\<dots> = q * 10 ^ e"
    using N(2) by (simp add: Ns)
  finally have "of_nat s * pow10 (n - int (length (dec_digits s))) = q"
    by simp
  then show ?thesis
    using s f by blast
qed

lemma parse_number_neg:
  assumes "t \<noteq> []" and "hd t \<noteq> 0x2D" and "parse_number t = Some (v, r)"
  shows "parse_number (0x2D # t) = Some (- v, r)"
  using assms by (auto simp: parse_number_def Let_def split: option.splits if_splits)

lemma Number_toString_parse:
  assumes "is_decimal q" and "number_end r"
  shows "parse_number (Number_toString q @ r) = Some (q, r)"
proof -
  consider (zero) "q = 0" | (neg) "q < 0" | (pos) "0 < q"
    by linarith
  then show ?thesis
  proof cases
    case zero
    have "parse_number ([0x30] @ r) = Some (of_nat (digits_val [0x30]), r)"
      using _ _ _ assms(2) by (rule parse_number_plain) (simp_all add: is_digit_def)
    then show ?thesis
      by (simp add: zero Number_toString_def digits_val_single digit_val_def)
  next
    case pos
    then obtain e where "decimal_places 1074 q = Some e"
      using assms(1) by (auto simp: is_decimal_def)
    with pos obtain s n where "0 < s" "positive_toString q = format_digits (dec_digits s) n"
      "of_nat s * pow10 (n - int (length (dec_digits s))) = q"
      using positive_toString_eq by blast
    then show ?thesis
      using pos parse_number_format_digits [of s r n] assms(2) by (simp add: Number_toString_def)
  next
    case neg
    then have p: "0 < - q"
      by simp
    then obtain e where "decimal_places 1074 (- q) = Some e"
      using assms(1) neg by (auto simp: is_decimal_def)
    with p obtain s n where s: "0 < s" "positive_toString (- q) = format_digits (dec_digits s) n"
      "of_nat s * pow10 (n - int (length (dec_digits s))) = - q"
      using positive_toString_eq by blast
    have 1: "parse_number (positive_toString (- q) @ r) = Some (- q, r)"
      using s parse_number_format_digits [of s r n] assms(2) by simp
    have 2: "positive_toString (- q) @ r \<noteq> []" "hd (positive_toString (- q) @ r) \<noteq> 0x2D"
      using hd_format_digits [OF s(1), of n] s(2) is_digit_not_special by (auto simp: hd_append)
    show ?thesis
      using parse_number_neg [OF 2 1] neg by (simp add: Number_toString_def)
  qed
qed

lemma Number_toString_hd:
  assumes "is_decimal q"
  shows "Number_toString q \<noteq> [] \<and>
         (hd (Number_toString q) = 0x2D \<or> is_digit (hd (Number_toString q)))"
proof -
  have ps: "positive_toString p \<noteq> [] \<and> is_digit (hd (positive_toString p))"
    if "0 < p" "decimal_places 1074 p \<noteq> None" for p
  proof -
    from that obtain e where "decimal_places 1074 p = Some e"
      by auto
    with that(1) obtain s n where "0 < s" "positive_toString p = format_digits (dec_digits s) n"
      using positive_toString_eq by blast
    then show ?thesis
      using hd_format_digits [of s n] by simp
  qed
  consider (zero) "q = 0" | (neg) "q < 0" | (pos) "0 < q"
    by linarith
  then show ?thesis
  proof cases
    case zero
    then show ?thesis by (simp add: Number_toString_def is_digit_def)
  next
    case neg
    then show ?thesis by (simp add: Number_toString_def)
  next
    case pos
    then show ?thesis
      using ps [of q] assms by (simp add: Number_toString_def is_decimal_def)
  qed
qed

section \<open>Parsing a serialised value\<close>

lemma skip_ws_start: "s \<noteq> [] \<Longrightarrow> \<not> is_json_ws (hd s) \<Longrightarrow> skip_ws (s @ r) = s @ r"
  by (cases s) (simp_all add: skip_ws_def)

lemma skip_ws_Cons: "\<not> is_json_ws c \<Longrightarrow> skip_ws (c # r) = c # r"
  by (simp add: skip_ws_def)

lemma value_start_props:
  "value_start c \<Longrightarrow> \<not> is_json_ws c \<and> c \<noteq> 0x5D \<and> c \<noteq> 0x7D \<and> c \<noteq> 0x2C \<and> c \<noteq> 0x3A"
  by (auto simp: value_start_def is_json_ws_def is_digit_def)

lemma stringify_start: "printable j \<Longrightarrow> stringify j \<noteq> [] \<and> value_start (hd (stringify j))"
proof (cases j)
  case (JNum q)
  assume "printable j"
  then show ?thesis
    using Number_toString_hd [of q] by (auto simp: JNum value_start_def)
qed (simp_all add: value_start_def lit_def QuoteJSONString_def)

lemma number_end_sep: "c = 0x2C \<or> c = 0x5D \<or> c = 0x7D \<Longrightarrow> number_end (c # r)"
  by (auto simp: number_end_def is_digit_def)

lemma join_commas_Cons:
  "join_commas (x # xs) = (if xs = [] then x else x @ 0x2C # join_commas xs)"
  by (cases xs) simp_all

lemma parse_elements_join:
  assumes "vs \<noteq> []"
    and "\<And>v f r. v \<in> set vs \<Longrightarrow> number_end r \<Longrightarrow> length (stringify v) \<le> f \<Longrightarrow>
           parse_value f (stringify v @ r) = Some (v, r)"
    and "Suc (length (join_commas (map stringify vs))) \<le> f"
  shows "parse_elements f (join_commas (map stringify vs) @ 0x5D # r) = Some (vs, r)"
  using assms
proof (induction vs arbitrary: f)
  case Nil
  then show ?case by simp
next
  case (Cons v vs)
  from Cons.prems(3) obtain n where f: "f = Suc n"
    by (cases f) simp_all
  show ?case
  proof (cases "vs = []")
    case True
    have "parse_value n (stringify v @ 0x5D # r) = Some (v, 0x5D # r)"
      using Cons.prems(3) by (intro Cons.prems(2)) (simp_all add: number_end_sep True f)
    then show ?thesis
      by (simp add: True f skip_ws_Cons is_json_ws_def)
  next
    case False
    let ?rest = "join_commas (map stringify vs) @ 0x5D # r"
    have len: "length (stringify v) \<le> n" "Suc (length (join_commas (map stringify vs))) \<le> n"
      using Cons.prems(3) False by (simp_all add: f join_commas_Cons)
    have "parse_value n (stringify v @ 0x2C # ?rest) = Some (v, 0x2C # ?rest)"
      using len(1) by (intro Cons.prems(2)) (simp_all add: number_end_sep)
    moreover have "parse_elements n ?rest = Some (vs, r)"
      using False Cons.prems(2) len(2) by (intro Cons.IH) simp_all
    ultimately show ?thesis
      using False by (simp add: f join_commas_Cons skip_ws_Cons is_json_ws_def)
  qed
qed

lemma parse_members_join:
  assumes "kvs \<noteq> []"
    and "\<And>k v f r. (k, v) \<in> set kvs \<Longrightarrow> number_end r \<Longrightarrow> length (stringify v) \<le> f \<Longrightarrow>
           parse_value f (stringify v @ r) = Some (v, r)"
    and "Suc (length (join_commas (map member_text kvs))) \<le> f"
  shows "parse_members f (join_commas (map member_text kvs) @ 0x7D # r) = Some (kvs, r)"
  using assms
proof (induction kvs arbitrary: f)
  case Nil
  then show ?case by simp
next
  case (Cons kv kvs)
  obtain k v where kv: "kv = (k, v)"
    by (cases kv)
  from Cons.prems(3) obtain n where f: "f = Suc n"
    by (cases f) simp_all
  have q: "\<not> is_json_ws 0x22" "\<not> is_json_ws 0x3A" "\<not> is_json_ws 0x2C" "\<not> is_json_ws 0x7D"
    by (simp_all add: is_json_ws_def)
  have mt: "member_text kv @ t = 0x22 # quote_units k @ 0x22 # 0x3A # stringify v @ t" for t
    by (simp add: member_text_def kv QuoteJSONString_def)
  have step: "parse_members (Suc n) (member_text kv @ c # t) =
        (if c = 0x2C then map_option (apfst ((#) (k, v))) (parse_members n t)
         else if c = 0x7D then Some ([(k, v)], t) else None)"
    if "parse_value n (stringify v @ c # t) = Some (v, c # t)" and "\<not> is_json_ws c" for c t
    using that q by (simp add: mt skip_ws_Cons parse_chars_quote_units)
  have lm: "length (member_text kv) = Suc (length (QuoteJSONString k) + length (stringify v))"
    by (simp add: member_text_def kv)
  show ?case
  proof (cases "kvs = []")
    case True
    have "length (stringify v) \<le> n"
      using Cons.prems(3) lm by (simp add: True f)
    then have "parse_value n (stringify v @ 0x7D # r) = Some (v, 0x7D # r)"
      by (intro Cons.prems(2) [of k]) (simp_all add: number_end_sep kv)
    then show ?thesis
      using step [of "0x7D" r] q by (simp add: True f kv)
  next
    case False
    let ?rest = "join_commas (map member_text kvs) @ 0x7D # r"
    have len: "length (stringify v) \<le> n" "Suc (length (join_commas (map member_text kvs))) \<le> n"
      using Cons.prems(3) False lm by (simp_all add: f join_commas_Cons)
    have "parse_value n (stringify v @ 0x2C # ?rest) = Some (v, 0x2C # ?rest)"
      using len(1) by (intro Cons.prems(2) [of k]) (simp_all add: number_end_sep kv)
    moreover have "parse_members n ?rest = Some (kvs, r)"
    proof (rule Cons.IH [OF False _ len(2)])
      fix k v f r assume "(k, v) \<in> set kvs" "number_end r" "length (stringify v) \<le> f"
      then show "parse_value f (stringify v @ r) = Some (v, r)"
        by (intro Cons.prems(2) [of k]) simp_all
    qed
    ultimately show ?thesis
      using False step [of "0x2C" ?rest] q by (simp add: f join_commas_Cons kv)
  qed
qed

lemma parse_value_stringify:
  "printable j \<Longrightarrow> number_end r \<Longrightarrow> length (stringify j) \<le> f \<Longrightarrow>
   parse_value f (stringify j @ r) = Some (j, r)"
proof (induction j arbitrary: f r)
  case JNull
  then obtain n where "f = Suc n" by (cases f) (simp_all add: lit_def)
  then show ?case
    by (simp add: lit_def skip_ws_def is_json_ws_def is_digit_def)
next
  case (JBool b)
  then obtain n where "f = Suc n" by (cases f) (simp_all add: lit_def split: if_splits)
  then show ?case
    by (simp add: lit_def skip_ws_def is_json_ws_def is_digit_def)
next
  case (JNum q)
  then have d: "is_decimal q" by simp
  from Number_toString_hd [OF d] obtain c t where ct: "Number_toString q = c # t"
    and c: "c = 0x2D \<or> is_digit c"
    by (cases "Number_toString q") auto
  from JNum obtain n where f: "f = Suc n" by (cases f) (simp_all add: ct)
  have w: "\<not> is_json_ws c" "c \<noteq> 0x7B" "c \<noteq> 0x5B" "c \<noteq> 0x22"
    using c by (auto simp: is_json_ws_def is_digit_def)
  have "parse_number (c # t @ r) = Some (q, r)"
    using Number_toString_parse [OF d JNum.prems(2)] by (simp add: ct)
  then show ?case
    using w c by (simp add: f ct skip_ws_Cons)
next
  case (JStr s)
  then obtain n where f: "f = Suc n" by (cases f) (simp_all add: QuoteJSONString_def)
  show ?case
    by (simp add: f QuoteJSONString_def skip_ws_def is_json_ws_def parse_chars_quote_units)
next
  case (JArr vs)
  then obtain n where f: "f = Suc n" by (cases f) simp_all
  show ?case
  proof (cases "vs = []")
    case True
    then show ?thesis
      by (simp add: f skip_ws_def is_json_ws_def)
  next
    case False
    then obtain v vs' where vs: "vs = v # vs'" by (cases vs) auto
    let ?body = "join_commas (map stringify vs)"
    have pv: "printable v" using JArr.prems(1) by (simp add: vs)
    have st: "?body \<noteq> []" "value_start (hd ?body)"
      using stringify_start [OF pv] by (auto simp: vs join_commas_Cons hd_append)
    then obtain c t where ct: "?body = c # t" and c: "value_start c"
      by (cases ?body) auto
    have el: "parse_elements n (?body @ 0x5D # r) = Some (vs, r)"
    proof (rule parse_elements_join [OF False])
      show "Suc (length ?body) \<le> n"
        using JArr.prems(3) by (simp add: f)
    next
      fix v f r assume "v \<in> set vs" "number_end r" "length (stringify v) \<le> f"
      then show "parse_value f (stringify v @ r) = Some (v, r)"
        using JArr.prems(1) by (intro JArr.IH) (simp_all add: list_all_iff)
    qed
    have "parse_value (Suc n) (0x5B # c # t @ 0x5D # r) = Some (JArr vs, r)"
      using value_start_props [OF c] el by (simp add: skip_ws_def is_json_ws_def ct)
    then show ?thesis
      by (simp add: f ct)
  qed
next
  case (JObj kvs)
  let ?body = "join_commas (map member_text kvs)"
  have S: "stringify (JObj kvs) = 0x7B # ?body @ [0x7D]"
    by (simp add: member_text_def [abs_def])
  from JObj.prems(3) obtain n where f: "f = Suc n"
    unfolding S by (cases f) simp_all
  show ?case
  proof (cases "kvs = []")
    case True
    then show ?thesis
      by (simp add: f skip_ws_def is_json_ws_def)
  next
    case False
    from False obtain kv kvs' where kvs: "kvs = kv # kvs'" by (cases kvs) auto
    have "?body = 0x22 # tl ?body"
      by (simp add: kvs join_commas_Cons member_text_def QuoteJSONString_def)
    then obtain t where ct: "?body = 0x22 # t"
      by blast
    have el: "parse_members n (?body @ 0x7D # r) = Some (kvs, r)"
    proof (rule parse_members_join [OF False])
      show "Suc (length ?body) \<le> n"
        using JObj.prems(3) unfolding S by (simp add: f)
    next
      fix k v f r assume "(k, v) \<in> set kvs" "number_end r" "length (stringify v) \<le> f"
      then show "parse_value f (stringify v @ r) = Some (v, r)"
        using JObj.prems(1) by (intro JObj.IH [of "(k, v)"]) (auto simp: list_all_iff)
    qed
    have "parse_value (Suc n) (0x7B # 0x22 # t @ 0x7D # r) = Some (JObj kvs, r)"
      using el by (simp add: skip_ws_def is_json_ws_def ct)
    then show ?thesis
      unfolding S by (simp add: f ct)
  qed
qed

lemma JSON_parse_stringify: "printable j \<Longrightarrow> JSON_parse (stringify j) = Inr j"
  using parse_value_stringify [of j "[]" "Suc (length (stringify j))"]
  by (simp add: JSON_parse_def number_end_def skip_ws_def)

section \<open>Saving and loading\<close>

lemma as_Expense_expense_json: "amount e = Fin q \<Longrightarrow> as_Expense (expense_json e) = Some e"
  by (cases e) (simp add: as_Expense_def expense_json_def property_def number_json_def lit_def)

lemma as_Expenses_expense_json:
  "list_all (\<lambda>e. finite_decimal (amount e)) es \<Longrightarrow> as_Expenses (JArr (map expense_json es)) = Some es"
proof -
  assume a: "list_all (\<lambda>e. finite_decimal (amount e)) es"
  have "as_Expense (expense_json e) = Some e" if "e \<in> set es" for e
  proof -
    from a that have "finite_decimal (amount e)"
      by (simp add: list_all_iff)
    then obtain q where "amount e = Fin q"
      by (cases "amount e") (simp_all add: finite_decimal_def)
    then show ?thesis
      by (rule as_Expense_expense_json)
  qed
  then show ?thesis
    by (simp add: as_Expenses_def list_all_iff map_idI)
qed

lemma printable_expense_json: "finite_decimal (amount e) \<or> (\<forall>q. amount e \<noteq> Fin q) \<Longrightarrow> printable (expense_json e)"
  by (cases "amount e") (auto simp: expense_json_def number_json_def finite_decimal_def)

lemma load_save:
  assumes "\<not> denied st" and "length (JSON_stringify es) \<le> quota st"
    and "list_all (\<lambda>e. printable (expense_json e)) es"
  shows "load (save es st) = Some (JArr (map expense_json es))"
proof -
  let ?j = "JArr (map expense_json es)"
  have p: "printable ?j"
    using assms(3) by (simp add: list_all_iff)
  have s: "save es st = st\<lparr>slot := Some (stringify ?j)\<rparr>"
    using assms(1,2) by (simp add: save_def setItem_def JSON_stringify_def)
  have "stringify ?j \<noteq> []"
    by simp
  then show ?thesis
    using assms(1) JSON_parse_stringify [OF p] by (simp add: s load_def getItem_def)
qed

lemma JSON_stringify_e1_e4:
  "JSON_stringify [e1, e4] =
     lit ''[{'' @ [0x22] @ lit ''id'' @ [0x22] @ lit '':'' @ [0x22] @ lit ''a1'' @ [0x22] @ lit '','' @
     [0x22] @ lit ''date'' @ [0x22] @ lit '':'' @ [0x22] @ lit ''2024-03-10'' @ [0x22] @ lit '','' @
     [0x22] @ lit ''amount'' @ [0x22] @ lit '':10,'' @
     [0x22] @ lit ''category'' @ [0x22] @ lit '':'' @ [0x22] @ lit ''Groceries'' @ [0x22] @ lit '','' @
     [0x22] @ lit ''note'' @ [0x22] @ lit '':'' @ [0x22] @ lit ''milk'' @ [0x22] @ lit ''},{'' @
     [0x22] @ lit ''id'' @ [0x22] @ lit '':'' @ [0x22] @ lit ''a4'' @ [0x22] @ lit '','' @
     [0x22] @ lit ''date'' @ [0x22] @ lit '':'' @ [0x22] @ lit ''2024-02-01'' @ [0x22] @ lit '','' @
     [0x22] @ lit ''amount'' @ [0x22] @ lit '':2.5,'' @
     [0x22] @ lit ''category'' @ [0x22] @ lit '':'' @ [0x22] @ lit ''Travel'' @ [0x22] @ lit '','' @
     [0x22] @ lit ''note'' @ [0x22] @ lit '':'' @ [0x22] @ lit ''bus'' @ [0x22] @ lit ''}]''"
  by (simp add: json_eval sample_eval str_eval)

text \<open>
  What \<open>addExpense\<close> stores from a finite amount is a whole number of cents, which
  is decimal: the collections it builds from such amounts meet the condition below.
\<close>

lemma decimal_places_found:
  "is_int (q * 10 ^ e) \<Longrightarrow> e \<le> f \<Longrightarrow> decimal_places f q \<noteq> None"
proof (induction e arbitrary: q f)
  case 0
  then show ?case
    by (subst decimal_places.simps) simp
next
  case (Suc e)
  then obtain f' where f: "f = Suc f'"
    by (cases f) simp_all
  have "decimal_places f' (q * 10) \<noteq> None"
    using Suc.prems by (intro Suc.IH) (simp_all add: f mult.assoc)
  then show ?case
    by (subst decimal_places.simps) (simp add: f)
qed

lemma cents_finite_decimal: "finite_decimal (Fin (of_int k / 100))"
proof -
  have "\<bar>of_int k / 100 :: rat\<bar> * 10 ^ 2 = of_int \<bar>k\<bar>"
    by simp
  then have "is_int (\<bar>of_int k / 100 :: rat\<bar> * 10 ^ 2)"
    by (simp only: is_int_def floor_of_int)
  then have "decimal_places 1074 \<bar>of_int k / 100 :: rat\<bar> \<noteq> None"
    by (rule decimal_places_found) simp
  then show ?thesis
    by (simp add: finite_decimal_def is_decimal_def)
qed

lemma addExpense_amount_decimal:
  assumes "date_st s \<noteq> []" and "parseFloat (amount_st s) = Fin v" and "0 < v"
  shows "list_all (\<lambda>e. finite_decimal (amount e)) (expenses s) \<Longrightarrow>
         list_all (\<lambda>e. finite_decimal (amount e)) (expenses (addExpense uuid s))"
  using assms cents_finite_decimal [of "\<lfloor>v * 100 + 1 / 2\<rfloor>"]
  by (simp add: addExpense_def Let_def)

text \<open>
  Claim C4, as amended. When \<open>localStorage\<close> takes the write (access is not denied and
  the serialised collection fits the quota) and every amount is a finite number, saving
  a collection and loading it gives back the collection saved, entry for entry and in
  the same order.
\<close>

theorem save_load_roundtrip:
  assumes "\<not> denied st" and "length (JSON_stringify es) \<le> quota st"
    and "list_all (\<lambda>e. finite_decimal (amount e)) es"
  shows "loaded_expenses (save es st) = Some es"
proof -
  have "list_all (\<lambda>e. printable (expense_json e)) es"
    using assms(3) by (simp add: list_all_iff printable_expense_json)
  then have "load (save es st) = Some (JArr (map expense_json es))"
    using assms(1,2) by (intro load_save)
  then show ?thesis
    using assms(3) by (simp add: loaded_expenses_def as_Expenses_expense_json)
qed

theorem save_load_roundtrip_witness:
  "\<not> denied st0 \<and> length (JSON_stringify [e1, e4]) \<le> quota st0 \<and>
   list_all (\<lambda>e. finite_decimal (amount e)) [e1, e4] \<and>
   loaded_expenses (save [e1, e4] st0) = Some [e1, e4]"
proof -
  have h1: "\<not> denied st0"
    by (simp add: st0_def)
  have h2: "length (JSON_stringify [e1, e4]) \<le> quota st0"
    by (simp add: JSON_stringify_e1_e4 st0_def lit_def)
  have h3: "list_all (\<lambda>e. finite_decimal (amount e)) [e1, e4]"
    by (simp add: finite_decimal_def is_decimal_def decimal_places.simps is_int_def
        floor_numeral_div_rat e1_def e4_def)
  show ?thesis
    using save_load_roundtrip [OF h1 h2 h3] h1 h2 h3 by simp
qed

text \<open>
  As stated, for every collection, the round trip fails: with a quota of 10 code units
  the write is refused and swallowed, and loading finds nothing; and an amount of
  \<open>Infinity\<close> is written as \<open>null\<close>, so that what is loaded is not an \<open>Expense\<close>.
\<close>

theorem save_load_counterexample:
  "loaded_expenses (save [e1] (st0\<lparr>quota := 10\<rparr>)) = Some [] \<and>
   set [] \<noteq> set [e1] \<and>
   loaded_expenses (save [e1\<lparr>amount := PosInf\<rparr>] st0) = None"
proof -
  have "10 < length (JSON_stringify [e1])"
    by (simp add: json_eval sample_eval str_eval)
  then have a: "loaded_expenses (save [e1] (st0\<lparr>quota := 10\<rparr>)) = Some []"
    by (simp add: loaded_expenses_def save_def setItem_def load_def getItem_def st0_def)
  have "length (JSON_stringify [e1\<lparr>amount := PosInf\<rparr>]) \<le> quota st0"
    by (simp add: json_eval sample_eval str_eval st0_def)
  then have "load (save [e1\<lparr>amount := PosInf\<rparr>] st0) = Some (JArr [expense_json (e1\<lparr>amount := PosInf\<rparr>)])"
    using load_save [of st0 "[e1\<lparr>amount := PosInf\<rparr>]"]
    by (simp add: st0_def printable_expense_json)
  then have b: "loaded_expenses (save [e1\<lparr>amount := PosInf\<rparr>] st0) = None"
    by (simp add: loaded_expenses_def as_Expenses_def as_Expense_def expense_json_def
        number_json_def property_def lit_def)
  show ?thesis
    using a b by simp
qed

lemma load_nothing:
  assumes "denied st \<or> slot st = None \<or> slot st = Some [] \<or>
           (\<exists>raw. slot st = Some raw \<and> JSON_parse raw = Inl SyntaxError)"
  shows "loaded_expenses st = Some []"
  using assms by (auto simp: loaded_expenses_def load_def getItem_def)

lemma parse_members_not_quote:
  "\<not> is_json_ws c \<Longrightarrow> c \<noteq> 0x22 \<Longrightarrow> parse_members n (c # r) = None"
  by (cases n) (simp_all add: skip_ws_def)

lemma JSON_parse_not_json: "JSON_parse (lit ''{oops'') = Inl SyntaxError"
  by (simp add: JSON_parse_def lit_def skip_ws_def is_json_ws_def parse_members_not_quote)

lemma JSON_parse_null: "JSON_parse (lit ''null'') = Inr JNull"
  by (simp add: JSON_parse_def lit_def skip_ws_def is_json_ws_def is_digit_def)

lemma JSON_parse_array_of_one: "JSON_parse (lit ''[1]'') = Inr (JArr [JNum 1])"
  by (simp add: JSON_parse_def lit_def skip_ws_def is_json_ws_def is_digit_def numeral_3_eq_3
      parse_number_def int_part_def frac_part_def exp_part_def digits_val_def digit_val_def pow10_def)

text \<open>
  Claim C5. Loading gives the empty collection when the slot is absent and when its
  contents are not a JSON array of \<open>Expense\<close> objects. The code keeps this for an absent
  slot and for a text that is not JSON, but not for JSON of another shape: from a slot
  holding \<open>null\<close> or \<open>[1]\<close>, \<open>setExpenses\<close> is called with \<open>null\<close> and with \<open>[1]\<close>, neither of
  which is the empty collection.
\<close>

theorem load_installs_any_json:
  "loaded_expenses (st0\<lparr>slot := None\<rparr>) = Some [] \<and>
   loaded_expenses (st0\<lparr>slot := Some (lit ''{oops'')\<rparr>) = Some [] \<and>
   load (st0\<lparr>slot := Some (lit ''null'')\<rparr>) = Some JNull \<and>
   loaded_expenses (st0\<lparr>slot := Some (lit ''null'')\<rparr>) = None \<and>
   load (st0\<lparr>slot := Some (lit ''[1]'')\<rparr>) = Some (JArr [JNum 1]) \<and>
   loaded_expenses (st0\<lparr>slot := Some (lit ''[1]'')\<rparr>) = None"
proof -
  have ne: "lit ''{oops'' \<noteq> []" "lit ''null'' \<noteq> []" "lit ''[1]'' \<noteq> []"
    by (simp_all add: lit_def)
  show ?thesis
    using ne by (simp add: loaded_expenses_def load_def getItem_def st0_def JSON_parse_not_json JSON_parse_null JSON_parse_array_of_one
      as_Expenses_def as_Expense_def)
qed

end
